theory Spec2Isabelle
  imports Main "HOL-Library.Word" "HOL-Library.Multiset" "HOL-Library.Sublist"
begin

chapter \<open>The program\<close>

section \<open>LZ77: the sliding-window matcher of main.go\<close>

text \<open>
  Go's \<^verbatim>\<open>int\<close> is modelled by \<^typ>\<open>int\<close>: every index the matcher computes lies between
  \<open>- windowSize\<close> and \<open>len(data) + 1\<close>, so 64-bit arithmetic never wraps for the inputs the
  theorems below speak about. A \<^verbatim>\<open>[]byte\<close> is a list of 8-bit words, read at an index that
  the loop guards keep inside the slice.
\<close>

type_synonym byte = "8 word"

record LZ77Token =
  Distance :: int
  Length :: int
  Next :: byte

text \<open>
  The inner loop of \<^verbatim>\<open>longestMatch\<close>:
  \<^verbatim>\<open>for l < current-i && i+l < len(data) && current+l < len(data) && data[i+l] == data[current+l] { l++ }\<close>
\<close>

function match_loop :: "byte list \<Rightarrow> int \<Rightarrow> int \<Rightarrow> int \<Rightarrow> int" where
  "match_loop data i current l =
     (if l < current - i \<and> i + l < int (length data) \<and> current + l < int (length data)
         \<and> data ! nat (i + l) = data ! nat (current + l)
      then match_loop data i current (l + 1)
      else l)"
  by pat_completeness auto
termination
  by (relation "measure (\<lambda>(data, i, current, l). nat (current - i - l))") auto

declare match_loop.simps [simp del]

text \<open>
  The outer loop of \<^verbatim>\<open>longestMatch\<close>, with the named results \<^verbatim>\<open>length\<close> and
  \<^verbatim>\<open>distance\<close> as accumulators (both start at Go's zero value).
\<close>

function longestMatch_loop :: "byte list \<Rightarrow> int \<Rightarrow> int \<Rightarrow> int \<Rightarrow> int \<Rightarrow> int \<times> int" where
  "longestMatch_loop data current i len dist =
     (if i < current
      then (let l = match_loop data i current 0
            in if l > len
               then longestMatch_loop data current (i + 1) l (current - i)
               else longestMatch_loop data current (i + 1) len dist)
      else (len, dist))"
  by pat_completeness auto
termination
  by (relation "measure (\<lambda>(data, current, i, len, dist). nat (current - i))") auto

declare longestMatch_loop.simps [simp del]

definition longestMatch :: "byte list \<Rightarrow> int \<Rightarrow> int \<Rightarrow> int \<times> int" where
  "longestMatch data current windowSize =
     longestMatch_loop data current (max 0 (current - windowSize)) 0 0"

text \<open>The match length is never negative, which makes the cursor of the compressor advance.\<close>

lemma longestMatch_loop_len_mono:
  "len \<le> fst (longestMatch_loop data current i len dist)"
proof (induction data current i len dist rule: longestMatch_loop.induct)
  case (1 data current i len dist)
  show ?case
  proof (cases "i < current")
    case False
    then show ?thesis by (subst longestMatch_loop.simps) simp
  next
    case True
    show ?thesis
    proof (cases "match_loop data i current 0 > len")
      case better: True
      have "match_loop data i current 0
          \<le> fst (longestMatch_loop data current (i + 1) (match_loop data i current 0) (current - i))"
        by (rule "1.IH"(1) [OF True refl better])
      then show ?thesis
        using True better by (subst longestMatch_loop.simps) (simp add: Let_def)
    next
      case keep: False
      have "len \<le> fst (longestMatch_loop data current (i + 1) len dist)"
        by (rule "1.IH"(2) [OF True refl keep])
      then show ?thesis
        using True keep by (subst longestMatch_loop.simps) (simp add: Let_def)
    qed
  qed
qed

lemma longestMatch_len_nonneg: "0 \<le> fst (longestMatch data current windowSize)"
  unfolding longestMatch_def by (rule longestMatch_loop_len_mono)

section \<open>The compressor\<close>

text \<open>
  \<^verbatim>\<open>LZ77Compress\<close>: the cursor \<open>i\<close> starts at 0; each round emits one token and moves the
  cursor by \<open>length + 1\<close>. At end of input \<^verbatim>\<open>nextChar\<close> keeps its initial value
  \<^verbatim>\<open>byte(0)\<close>.
\<close>

function LZ77Compress_loop :: "byte list \<Rightarrow> int \<Rightarrow> int \<Rightarrow> LZ77Token list" where
  "LZ77Compress_loop input windowSize i =
     (if i < int (length input)
      then (let m = longestMatch input i windowSize;
                len = fst m;
                dist = snd m;
                nextChar = (if i + len < int (length input) then input ! nat (i + len) else 0);
                i' = i + len + 1
            in \<lparr>Distance = dist, Length = len, Next = nextChar\<rparr> #
               (if i' \<ge> int (length input) then [] else LZ77Compress_loop input windowSize i'))
      else [])"
  by pat_completeness auto
termination
proof (relation "measure (\<lambda>(input, windowSize, i). nat (int (length input) - i))")
  show "wf (measure (\<lambda>(input, windowSize, i). nat (int (length input) - i)))" by simp
next
  fix input :: "byte list" and windowSize i :: int and m len dist nextChar i'
  assume "i < int (length input)" "m = longestMatch input i windowSize" "len = fst m"
    "i' = i + len + 1"
  then show "((input, windowSize, i'), input, windowSize, i)
      \<in> measure (\<lambda>(input, windowSize, i). nat (int (length input) - i))"
    using longestMatch_len_nonneg [of input i windowSize] by simp
qed

declare LZ77Compress_loop.simps [simp del]

definition LZ77Compress :: "byte list \<Rightarrow> int \<Rightarrow> LZ77Token list" where
  "LZ77Compress input windowSize = LZ77Compress_loop input windowSize 0"

section \<open>Replaying a token stream\<close>



section \<open>Huffman trees and the priority queue\<close>

text \<open>
  A \<^verbatim>\<open>rune\<close> is a Unicode code point. A Go \<^verbatim>\<open>string\<close> is modelled by the sequence of
  code points that \<^verbatim>\<open>for _, c := range s\<close> yields (the text is taken to be valid UTF-8,
  so that the string and this sequence determine each other), and
  \<^verbatim>\<open>strings.Builder.WriteRune\<close> appends one code point. Frequencies are counts of
  runes of a string in memory, far below \<open>2\<^sup>6\<^sup>3\<close>, so \<^typ>\<open>int\<close> stands for Go's
  \<^verbatim>\<open>int\<close> without wrap-around.
\<close>

type_synonym rune = nat

record HuffmanLeaf =
  Frequency :: int
  Value :: rune
  Char :: "rune list"

text \<open>
  The interface \<^verbatim>\<open>HuffmanTree\<close> has the two implementations \<^verbatim>\<open>HuffmanLeaf\<close> and
  \<^verbatim>\<open>HuffmanNode\<close>; \<open>Node\<close> carries the fields \<^verbatim>\<open>Frequency\<close>, \<^verbatim>\<open>Value\<close>,
  \<^verbatim>\<open>Left\<close>, \<^verbatim>\<open>Right\<close> of the struct.
\<close>

datatype HuffmanTree =
    Leaf HuffmanLeaf
  | Node (NodeFrequency: int) (NodeValue: rune) (Left: HuffmanTree) (Right: HuffmanTree)

fun Freq :: "HuffmanTree \<Rightarrow> int" where
  "Freq (Leaf hl) = Frequency hl"
| "Freq (Node f v l r) = f"

type_synonym PriorityQueue = "HuffmanTree list"

definition Less :: "PriorityQueue \<Rightarrow> nat \<Rightarrow> nat \<Rightarrow> bool" where
  "Less pq i j \<longleftrightarrow> Freq (pq ! i) < Freq (pq ! j)"

definition Swap :: "PriorityQueue \<Rightarrow> nat \<Rightarrow> nat \<Rightarrow> PriorityQueue" where
  "Swap pq i j = pq[i := pq ! j, j := pq ! i]"

definition Push :: "PriorityQueue \<Rightarrow> HuffmanTree \<Rightarrow> PriorityQueue" where
  "Push pq item = pq @ [item]"

text \<open>\<^verbatim>\<open>Pop\<close> reads \<^verbatim>\<open>old[n-1]\<close>, which panics on an empty queue: the result \<open>None\<close>.\<close>

definition Pop :: "PriorityQueue \<Rightarrow> (HuffmanTree \<times> PriorityQueue) option" where
  "Pop pq = (if pq = [] then None else Some (last pq, butlast pq))"

subsection \<open>Go's container/heap over the queue\<close>

text \<open>
  \<^verbatim>\<open>BuildTree\<close> drives the queue through the standard library package
  \<^verbatim>\<open>container/heap\<close>, which is not part of the repository. Its functions \<^verbatim>\<open>down\<close>,
  \<^verbatim>\<open>up\<close>, \<^verbatim>\<open>Init\<close>, \<^verbatim>\<open>Push\<close> and \<^verbatim>\<open>Pop\<close> are written out here as the library
  defines them, over the methods \<open>Less\<close>, \<open>Swap\<close>, \<open>Push\<close> and \<open>Pop\<close> above:
  \<^verbatim>\<open>down\<close> sifts the element at \<open>i\<close> below the smaller of its children \<open>2i+1\<close> and
  \<open>2i+2\<close> while that child is smaller; \<^verbatim>\<open>up\<close> sifts the element at \<open>j\<close> above its
  parent \<open>(j-1)/2\<close> while it is smaller than the parent. Indices are natural numbers:
  the library's test \<^verbatim>\<open>j1 < 0\<close> only guards against overflow of \<^verbatim>\<open>2*i + 1\<close>, and
  \<open>(0 - 1) div 2 = 0\<close> agrees with Go's \<^verbatim>\<open>(0 - 1) / 2 == 0\<close>.
\<close>

function heap_down :: "PriorityQueue \<Rightarrow> nat \<Rightarrow> nat \<Rightarrow> PriorityQueue" where
  "heap_down h i n =
     (let j1 = 2 * i + 1
      in if j1 \<ge> n then h
         else (let j = (if j1 + 1 < n \<and> Less h (j1 + 1) j1 then j1 + 1 else j1)
               in if \<not> Less h j i then h else heap_down (Swap h i j) j n))"
  by pat_completeness auto
termination
  by (relation "measure (\<lambda>(h, i, n). n - i)") auto

declare heap_down.simps [simp del]

function heap_up :: "PriorityQueue \<Rightarrow> nat \<Rightarrow> PriorityQueue" where
  "heap_up h j =
     (let i = (j - 1) div 2
      in if i = j \<or> \<not> Less h j i then h else heap_up (Swap h i j) i)"
  by pat_completeness auto
termination
  by (relation "measure (\<lambda>(h, j). j)") auto

declare heap_up.simps [simp del]

text \<open>\<^verbatim>\<open>for i := n/2 - 1; i >= 0; i-- { down(h, i, n) }\<close>\<close>

definition heap_Init :: "PriorityQueue \<Rightarrow> PriorityQueue" where
  "heap_Init h = foldl (\<lambda>h' i. heap_down h' i (length h)) h (rev [0..<length h div 2])"

definition heap_Push :: "PriorityQueue \<Rightarrow> HuffmanTree \<Rightarrow> PriorityQueue" where
  "heap_Push h x = (let h' = Push h x in heap_up h' (length h' - 1))"

text \<open>
  \<^verbatim>\<open>n := h.Len() - 1; h.Swap(0, n); down(h, 0, n); return h.Pop()\<close>. On an empty queue
  \<open>n = -1\<close> and \<^verbatim>\<open>Swap(0, -1)\<close> panics.
\<close>

definition heap_Pop :: "PriorityQueue \<Rightarrow> (HuffmanTree \<times> PriorityQueue) option" where
  "heap_Pop h =
     (if h = [] then None
      else (let n = length h - 1 in Pop (heap_down (Swap h 0 n) 0 n)))"

lemma length_Swap [simp]: "length (Swap pq i j) = length pq"
  by (simp add: Swap_def)

lemma length_heap_down [simp]: "length (heap_down h i n) = length h"
proof (induction h i n rule: heap_down.induct)
  case (1 h i n)
  then show ?case
    by (subst heap_down.simps) (simp add: Let_def)
qed

lemma length_heap_up [simp]: "length (heap_up h j) = length h"
proof (induction h j rule: heap_up.induct)
  case (1 h j)
  then show ?case
    by (subst heap_up.simps) (simp add: Let_def)
qed

lemma length_heap_Push [simp]: "length (heap_Push h x) = Suc (length h)"
  by (simp add: heap_Push_def Push_def Let_def)

lemma heap_Pop_length: "heap_Pop h = Some (x, h') \<Longrightarrow> Suc (length h') = length h"
proof -
  assume p: "heap_Pop h = Some (x, h')"
  then have ne: "h \<noteq> []" by (auto simp: heap_Pop_def)
  let ?h2 = "heap_down (Swap h 0 (length h - 1)) 0 (length h - 1)"
  have len: "length ?h2 = length h" by simp
  have "Pop ?h2 = Some (x, h')" using p ne by (simp add: heap_Pop_def Let_def)
  then have "h' = butlast ?h2" by (auto simp: Pop_def split: if_splits)
  then have "length h' = length h - 1" using len by simp
  then show ?thesis using ne by (cases h) simp_all
qed

subsection \<open>BuildTree\<close>

text \<open>
  The loop \<^verbatim>\<open>for trees.Len() > 1\<close> pops two trees, pushes their parent (whose
  \<^verbatim>\<open>Value\<close> is 0) and goes on; the final \<^verbatim>\<open>heap.Pop\<close> returns the root, or panics
  when the queue is empty (\<open>None\<close>).
\<close>

function BuildTree_loop :: "PriorityQueue \<Rightarrow> HuffmanTree option" where
  "BuildTree_loop trees =
     (if length trees > 1
      then (case heap_Pop trees of
              None \<Rightarrow> None
            | Some (a, trees1) \<Rightarrow>
                (case heap_Pop trees1 of
                   None \<Rightarrow> None
                 | Some (b, trees2) \<Rightarrow>
                     BuildTree_loop (heap_Push trees2 (Node (Freq a + Freq b) 0 a b))))
      else map_option fst (heap_Pop trees))"
  by pat_completeness auto
termination
proof (relation "measure length")
  show "wf (measure length)" by simp
next
  fix trees :: PriorityQueue and x2 a trees1 x2a b trees2
  assume "heap_Pop trees = Some x2" "(a, trees1) = x2"
    "heap_Pop trees1 = Some x2a" "(b, trees2) = x2a"
  then have "Suc (length trees1) = length trees" "Suc (length trees2) = length trees1"
    using heap_Pop_length by metis+
  then show "(heap_Push trees2 (Node (Freq a + Freq b) 0 a b), trees) \<in> measure length"
    by simp
qed

declare BuildTree_loop.simps [simp del]

definition BuildTree :: "HuffmanLeaf list \<Rightarrow> HuffmanTree option" where
  "BuildTree leaves = BuildTree_loop (heap_Init (map Leaf leaves))"

section \<open>Frequency table, code table, encoding and decoding\<close>

text \<open>
  A Go map is a partial function. \<^verbatim>\<open>for k, v := range m\<close> visits every key once, in an
  order the language leaves open: the order is an argument \<open>ks\<close> of each function that
  ranges over a map, and \<open>range_order m ks\<close> says that \<open>ks\<close> is one of the possible orders.
\<close>

definition range_order :: "('k \<rightharpoonup> 'v) \<Rightarrow> 'k list \<Rightarrow> bool" where
  "range_order m ks \<longleftrightarrow> distinct ks \<and> set ks = dom m"

definition range_pairs :: "('k \<rightharpoonup> 'v) \<Rightarrow> 'k list \<Rightarrow> ('k \<times> 'v) list" where
  "range_pairs m ks = List.map_filter (\<lambda>k. map_option (Pair k) (m k)) ks"

text \<open>\<^verbatim>\<open>frequencies[char]++\<close> for every rune of the string; a missing key reads as 0.\<close>

definition frequencies :: "rune list \<Rightarrow> (rune \<rightharpoonup> int)" where
  "frequencies s =
     foldl (\<lambda>m char. m(char \<mapsto> (case m char of None \<Rightarrow> 0 | Some n \<Rightarrow> n) + 1)) Map.empty s"

definition BuildFrequencyTable :: "rune list \<Rightarrow> rune list \<Rightarrow> HuffmanLeaf list" where
  "BuildFrequencyTable ks s =
     map (\<lambda>(char, freq). \<lparr>Frequency = freq, Value = char, Char = [char]\<rparr>)
       (range_pairs (frequencies s) ks)"

text \<open>
  \<^verbatim>\<open>buildEncoding\<close>: the runes \<^verbatim>\<open>'0'\<close> (48) and \<^verbatim>\<open>'1'\<close> (49) extend the prefix
  (the argument \<open>pfx\<close>); the entries of the left table and then those of the right table
  are copied into a fresh map, so a key of both ends with the right table's code.
\<close>

fun buildEncoding :: "HuffmanTree \<Rightarrow> rune list \<Rightarrow> (rune \<rightharpoonup> rune list)" where
  "buildEncoding (Leaf hl) pfx = Map.empty(Value hl \<mapsto> pfx)"
| "buildEncoding (Node f v l r) pfx =
     (Map.empty ++ buildEncoding l (pfx @ [48])) ++ buildEncoding r (pfx @ [49])"

text \<open>\<^verbatim>\<open>encoding[c]\<close> is the empty string for a rune without an entry.\<close>

definition encode_step :: "(rune \<rightharpoonup> rune list) \<Rightarrow> rune list \<Rightarrow> rune \<Rightarrow> rune list" where
  "encode_step encoding encoded c =
     encoded @ (case encoding c of None \<Rightarrow> [] | Some v \<Rightarrow> v)"

definition applyHuffmanEncoding :: "rune list \<Rightarrow> (rune \<rightharpoonup> rune list) \<Rightarrow> rune list" where
  "applyHuffmanEncoding s encoding = foldl (encode_step encoding) [] s"

text \<open>\<^verbatim>\<open>reversed[v] = k\<close> for every entry, in the order of the range.\<close>

definition reverse_step :: "(rune list \<rightharpoonup> rune) \<Rightarrow> rune \<times> rune list \<Rightarrow> (rune list \<rightharpoonup> rune)" where
  "reverse_step reversed kv = reversed(snd kv \<mapsto> fst kv)"

definition reverseMap :: "rune list \<Rightarrow> (rune \<rightharpoonup> rune list) \<Rightarrow> (rune list \<rightharpoonup> rune)" where
  "reverseMap ks m = foldl reverse_step Map.empty (range_pairs m ks)"

text \<open>
  The loop of \<^verbatim>\<open>applyHuffmanDecoding\<close> with its two builders \<^verbatim>\<open>decoded\<close> and
  \<^verbatim>\<open>code\<close>; the result pairs the decoded string with what is left in \<^verbatim>\<open>code\<close> when
  the input ends. The function returns the first component and drops the second.
\<close>

fun decode_loop ::
  "(rune list \<rightharpoonup> rune) \<Rightarrow> rune list \<Rightarrow> rune list \<Rightarrow> rune list \<Rightarrow> rune list \<times> rune list" where
  "decode_loop reversed [] decoded code = (decoded, code)"
| "decode_loop reversed (c # cs) decoded code =
     (case reversed (code @ [c]) of
        Some val \<Rightarrow> decode_loop reversed cs (decoded @ [val]) []
      | None \<Rightarrow> decode_loop reversed cs decoded (code @ [c]))"

definition applyHuffmanDecoding :: "rune list \<Rightarrow> rune list \<Rightarrow> (rune \<rightharpoonup> rune list) \<Rightarrow> rune list" where
  "applyHuffmanDecoding ks s encoding = fst (decode_loop (reverseMap ks encoding) s [] [])"

section \<open>The case-shift transform\<close>

text \<open>
  \<^verbatim>\<open>applyShiftString\<close> and \<^verbatim>\<open>removeShiftString\<close> call \<^verbatim>\<open>unicode.IsUpper\<close>,
  \<^verbatim>\<open>unicode.IsLower\<close>, \<^verbatim>\<open>unicode.ToLower\<close> and \<^verbatim>\<open>unicode.ToUpper\<close> of Go's standard
  library, whose tables are not part of the repository. The four functions are an
  argument of the model.
\<close>

record unicode =
  IsUpper :: "rune \<Rightarrow> bool"
  IsLower :: "rune \<Rightarrow> bool"
  ToLower :: "rune \<Rightarrow> rune"
  ToUpper :: "rune \<Rightarrow> rune"

text \<open>The marker runes \<^verbatim>\<open>'\<up>'\<close> (U+2191) and \<^verbatim>\<open>'\<down>'\<close> (U+2193).\<close>

definition shift_in :: rune where
  "shift_in = 8593"

definition shift_out :: rune where
  "shift_out = 8595"

fun applyShift_loop :: "unicode \<Rightarrow> rune list \<Rightarrow> bool \<Rightarrow> rune list \<Rightarrow> rune list" where
  "applyShift_loop U [] isShifted shifted = shifted"
| "applyShift_loop U (c # cs) isShifted shifted =
     (if IsUpper U c \<and> \<not> isShifted
      then applyShift_loop U cs True (shifted @ [shift_in, ToLower U c])
      else if IsLower U c \<and> isShifted
      then applyShift_loop U cs False (shifted @ [shift_out, c])
      else if isShifted
      then applyShift_loop U cs isShifted (shifted @ [ToLower U c])
      else applyShift_loop U cs isShifted (shifted @ [c]))"

definition applyShiftString :: "unicode \<Rightarrow> rune list \<Rightarrow> rune list" where
  "applyShiftString U s = applyShift_loop U s False []"

fun removeShift_loop :: "unicode \<Rightarrow> rune list \<Rightarrow> bool \<Rightarrow> rune list \<Rightarrow> rune list" where
  "removeShift_loop U [] isShifted unshifted = unshifted"
| "removeShift_loop U (c # cs) isShifted unshifted =
     (if c = shift_in then removeShift_loop U cs True unshifted
      else if c = shift_out then removeShift_loop U cs False unshifted
      else if isShifted then removeShift_loop U cs isShifted (unshifted @ [ToUpper U c])
      else removeShift_loop U cs isShifted (unshifted @ [c]))"

definition removeShiftString :: "unicode \<Rightarrow> rune list \<Rightarrow> rune list" where
  "removeShiftString U s = removeShift_loop U s False []"

text \<open>
  A fragment of Go's tables, for evaluating the transform on concrete text: the values of
  the four functions on the ASCII range, on the two markers (symbols without case), on
  U+212A KELVIN SIGN (an uppercase letter whose lowercase is \<open>k\<close>) and on U+2102
  DOUBLE-STRUCK CAPITAL C (an uppercase letter without a lowercase form). Other code
  points are outside the fragment; it is only ever applied to the ones listed.
\<close>

definition go_unicode :: unicode where
  "go_unicode =
     \<lparr>IsUpper = (\<lambda>r. (65 \<le> r \<and> r \<le> 90) \<or> r = 8490 \<or> r = 8450),
      IsLower = (\<lambda>r. 97 \<le> r \<and> r \<le> 122),
      ToLower = (\<lambda>r. if 65 \<le> r \<and> r \<le> 90 then r + 32 else if r = 8490 then 107 else r),
      ToUpper = (\<lambda>r. if 97 \<le> r \<and> r \<le> 122 then r - 32 else r)\<rparr>"

section \<open>Notions used in the proofs\<close>

text \<open>
  The loop invariant of the scan over the window \<open>[s, current)\<close>: after the positions
  below \<open>i\<close> have been tried, \<open>len\<close> is the largest candidate length seen, and \<open>dist\<close>
  belongs to the first position (in scan order) that reached it.
\<close>

definition lm_inv :: "byte list \<Rightarrow> int \<Rightarrow> int \<Rightarrow> int \<Rightarrow> int \<Rightarrow> int \<Rightarrow> bool" where
  "lm_inv data current s i len dist \<longleftrightarrow>
     0 \<le> len \<and>
     (\<forall>j. s \<le> j \<and> j < i \<longrightarrow> match_loop data j current 0 \<le> len) \<and>
     (if len = 0 then dist = 0
      else s \<le> current - dist \<and> current - dist < i
         \<and> match_loop data (current - dist) current 0 = len
         \<and> (\<forall>j. s \<le> j \<and> j < i \<and> match_loop data j current 0 = len \<longrightarrow> current - dist \<le> j))"

text \<open>The leaves of a tree, with multiplicity, and the symbols they carry.\<close>

fun leaves_of :: "HuffmanTree \<Rightarrow> HuffmanLeaf multiset" where
  "leaves_of (Leaf hl) = {#hl#}"
| "leaves_of (Node f v l r) = leaves_of l + leaves_of r"

text \<open>A code table is prefix-free when no code is a prefix of the code of another symbol.\<close>

definition prefix_free :: "(rune \<rightharpoonup> rune list) \<Rightarrow> bool" where
  "prefix_free enc \<longleftrightarrow>
     (\<forall>x y c1 c2. x \<noteq> y \<and> enc x = Some c1 \<and> enc y = Some c2 \<longrightarrow> \<not> prefix c1 c2)"

chapter \<open>Properties\<close>

section \<open>Properties of the matcher\<close>

lemma match_loop_ge: "l \<le> match_loop data i current l"
proof (induction data i current l rule: match_loop.induct)
  case (1 data i current l)
  then show ?case
    by (subst match_loop.simps) (auto split: if_splits)
qed

lemma match_loop_le:
  "l \<le> current - i \<Longrightarrow> match_loop data i current l \<le> current - i"
proof (induction data i current l rule: match_loop.induct)
  case (1 data i current l)
  then show ?case
    by (subst match_loop.simps) (auto split: if_splits)
qed



lemma lm_inv_step_better:
  assumes "lm_inv data current s i len dist" and "s \<le> i"
    and "len < match_loop data i current 0"
  shows "lm_inv data current s (i + 1) (match_loop data i current 0) (current - i)"
proof -
  let ?l = "match_loop data i current 0"
  have old: "\<forall>j. s \<le> j \<and> j < i \<longrightarrow> match_loop data j current 0 \<le> len"
    and len0: "0 \<le> len"
    using assms(1) by (auto simp: lm_inv_def)
  have a: "\<forall>j. s \<le> j \<and> j < i + 1 \<longrightarrow> match_loop data j current 0 \<le> ?l"
  proof (intro allI impI)
    fix j assume j: "s \<le> j \<and> j < i + 1"
    show "match_loop data j current 0 \<le> ?l"
    proof (cases "j = i")
      case True then show ?thesis by simp
    next
      case False
      then have "j < i" using j by arith
      then show ?thesis using old j assms(3) by fastforce
    qed
  qed
  have b: "\<forall>j. s \<le> j \<and> j < i + 1 \<and> match_loop data j current 0 = ?l \<longrightarrow> i \<le> j"
  proof (intro allI impI)
    fix j assume j: "s \<le> j \<and> j < i + 1 \<and> match_loop data j current 0 = ?l"
    show "i \<le> j"
    proof (rule ccontr)
      assume "\<not> i \<le> j"
      then have "match_loop data j current 0 \<le> len" using old j by auto
      then show False using j assms(3) by simp
    qed
  qed
  from a b len0 assms(2,3) show ?thesis
    by (simp add: lm_inv_def)
qed

lemma lm_inv_step_keep:
  assumes "lm_inv data current s i len dist" and "s \<le> i"
    and "\<not> len < match_loop data i current 0"
  shows "lm_inv data current s (i + 1) len dist"
proof -
  have old: "\<forall>j. s \<le> j \<and> j < i \<longrightarrow> match_loop data j current 0 \<le> len"
    using assms(1) by (auto simp: lm_inv_def)
  have a: "\<forall>j. s \<le> j \<and> j < i + 1 \<longrightarrow> match_loop data j current 0 \<le> len"
  proof (intro allI impI)
    fix j assume j: "s \<le> j \<and> j < i + 1"
    then have "j = i \<or> j < i" by arith
    then show "match_loop data j current 0 \<le> len"
      using old j assms(3) by auto
  qed
  show ?thesis
  proof (cases "len = 0")
    case True
    then show ?thesis using assms(1) a by (simp add: lm_inv_def)
  next
    case False
    then have d: "s \<le> current - dist" "current - dist < i"
      "match_loop data (current - dist) current 0 = len"
      and first: "\<forall>j. s \<le> j \<and> j < i \<and> match_loop data j current 0 = len \<longrightarrow> current - dist \<le> j"
      using assms(1) by (auto simp: lm_inv_def)
    have b: "\<forall>j. s \<le> j \<and> j < i + 1 \<and> match_loop data j current 0 = len \<longrightarrow> current - dist \<le> j"
    proof (intro allI impI)
      fix j assume j: "s \<le> j \<and> j < i + 1 \<and> match_loop data j current 0 = len"
      then have "j = i \<or> j < i" by arith
      then show "current - dist \<le> j"
        using first j d(2) by auto
    qed
    from False a b d assms(1) show ?thesis
      by (simp add: lm_inv_def)
  qed
qed

lemma longestMatch_loop_inv:
  "lm_inv data current s i len dist \<Longrightarrow> s \<le> i \<Longrightarrow>
   longestMatch_loop data current i len dist = (L, D) \<Longrightarrow>
   lm_inv data current s (max i current) L D"
proof (induction data current i len dist rule: longestMatch_loop.induct)
  case (1 data current i len dist)
  show ?case
  proof (cases "i < current")
    case False
    then have "longestMatch_loop data current i len dist = (len, dist)"
      by (subst longestMatch_loop.simps) simp
    moreover have "max i current = i" using False by simp
    ultimately show ?thesis using "1.prems" by simp
  next
    case True
    then have m: "max (i + 1) current = max i current" by simp
    show ?thesis
    proof (cases "len < match_loop data i current 0")
      case better: True
      have eq: "longestMatch_loop data current (i + 1) (match_loop data i current 0) (current - i) = (L, D)"
        using "1.prems"(3) True better by (subst (asm) longestMatch_loop.simps) (simp add: Let_def)
      have "lm_inv data current s (max (i + 1) current) L D"
        using "1.IH"(1) [OF True refl _ lm_inv_step_better [OF "1.prems"(1,2) better] _ eq]
          better "1.prems"(2) by simp
      then show ?thesis using m by simp
    next
      case keep: False
      have eq: "longestMatch_loop data current (i + 1) len dist = (L, D)"
        using "1.prems"(3) True keep by (subst (asm) longestMatch_loop.simps) (simp add: Let_def)
      have "lm_inv data current s (max (i + 1) current) L D"
        using "1.IH"(2) [OF True refl _ lm_inv_step_keep [OF "1.prems"(1,2) keep] _ eq]
          keep "1.prems"(2) by simp
      then show ?thesis using m by simp
    qed
  qed
qed

lemma longestMatch_inv:
  assumes "longestMatch data current windowSize = (L, D)"
  shows "lm_inv data current (max 0 (current - windowSize))
           (max (max 0 (current - windowSize)) current) L D"
proof -
  have "lm_inv data current (max 0 (current - windowSize)) (max 0 (current - windowSize)) 0 0"
    unfolding lm_inv_def by auto
  from longestMatch_loop_inv [OF this _ assms [unfolded longestMatch_def]]
  show ?thesis by simp
qed

lemma longestMatch_cases:
  assumes "longestMatch data current windowSize = (L, D)"
  shows "(L = 0 \<and> D = 0) \<or>
         (0 < L \<and> 0 < D \<and> D \<le> current \<and> D \<le> windowSize
            \<and> match_loop data (current - D) current 0 = L)"
proof -
  let ?s = "max 0 (current - windowSize)"
  have inv: "lm_inv data current ?s (max ?s current) L D"
    by (rule longestMatch_inv [OF assms])
  show ?thesis
  proof (cases "L = 0")
    case True
    then show ?thesis using inv by (simp add: lm_inv_def)
  next
    case False
    then have "0 < L" "?s \<le> current - D" "current - D < max ?s current"
      "match_loop data (current - D) current 0 = L"
      using inv by (auto simp: lm_inv_def)
    then show ?thesis by auto
  qed
qed

lemma longestMatch_len_le_dist:
  assumes "longestMatch data current windowSize = (L, D)"
  shows "L \<le> D"
  using longestMatch_cases [OF assms] match_loop_le [of 0 current "current - D" data]
  by auto



lemma LZ77Compress_loop_tokens:
  "tok \<in> set (LZ77Compress_loop input windowSize i) \<Longrightarrow>
   \<exists>j. Distance tok = snd (longestMatch input j windowSize)
     \<and> Length tok = fst (longestMatch input j windowSize)"
proof (induction input windowSize i rule: LZ77Compress_loop.induct)
  case (1 input windowSize i)
  show ?case
  proof (cases "i < int (length input)")
    case False
    then show ?thesis using "1.prems" by (subst (asm) LZ77Compress_loop.simps) simp
  next
    case True
    let ?m = "longestMatch input i windowSize"
    let ?i' = "i + fst ?m + 1"
    from "1.prems" True
    have "(Distance tok = snd ?m \<and> Length tok = fst ?m)
        \<or> (\<not> int (length input) \<le> ?i' \<and> tok \<in> set (LZ77Compress_loop input windowSize ?i'))"
      by (subst (asm) LZ77Compress_loop.simps) (auto simp: Let_def split: if_splits)
    then show ?thesis
    proof
      assume "Distance tok = snd ?m \<and> Length tok = fst ?m"
      then show ?thesis by blast
    next
      assume r: "\<not> int (length input) \<le> ?i' \<and> tok \<in> set (LZ77Compress_loop input windowSize ?i')"
      show ?thesis
        by (rule "1.IH" [OF True refl refl refl refl refl]) (use r in auto)
    qed
  qed
qed

section \<open>Replaying the tokens of the compressor\<close>




section \<open>The priority queue keeps its elements\<close>

lemma mset_Swap: "i < length pq \<Longrightarrow> j < length pq \<Longrightarrow> mset (Swap pq i j) = mset pq"
  by (simp add: Swap_def mset_swap)

lemma heap_down_unfold:
  assumes "\<not> 2 * i + 1 \<ge> n"
    and "j = (if 2 * i + 1 + 1 < n \<and> Less h (2 * i + 1 + 1) (2 * i + 1)
              then 2 * i + 1 + 1 else 2 * i + 1)"
  shows "heap_down h i n = (if \<not> Less h j i then h else heap_down (Swap h i j) j n)"
  using assms by (subst heap_down.simps) (simp add: Let_def)

lemma mset_heap_down: "n \<le> length h \<Longrightarrow> mset (heap_down h i n) = mset h"
proof (induction h i n rule: heap_down.induct)
  case (1 h i n)
  show ?case
  proof (cases "2 * i + 1 \<ge> n")
    case True
    then show ?thesis by (subst heap_down.simps) simp
  next
    case False
    define j where "j = (if 2 * i + 1 + 1 < n \<and> Less h (2 * i + 1 + 1) (2 * i + 1)
                         then 2 * i + 1 + 1 else 2 * i + 1)"
    have jn: "j < n" "i < n" using False by (auto simp: j_def)
    note unfold = heap_down_unfold [OF False j_def]
    show ?thesis
    proof (cases "Less h j i")
      case False
      then show ?thesis by (simp add: unfold)
    next
      case True
      have "mset (heap_down (Swap h i j) j n) = mset (Swap h i j)"
        using "1.IH" [OF refl \<open>\<not> 2 * i + 1 \<ge> n\<close> j_def] True "1.prems" by simp
      moreover have "mset (Swap h i j) = mset h"
        using jn "1.prems" by (simp add: mset_Swap)
      moreover have "heap_down h i n = heap_down (Swap h i j) j n"
        using True by (simp add: unfold)
      ultimately show ?thesis by simp
    qed
  qed
qed

lemma mset_heap_up: "j < length h \<Longrightarrow> mset (heap_up h j) = mset h"
proof (induction h j rule: heap_up.induct)
  case (1 h j)
  show ?case
  proof (cases "(j - 1) div 2 = j \<or> \<not> Less h j ((j - 1) div 2)")
    case True
    then show ?thesis by (subst heap_up.simps) (auto simp: Let_def)
  next
    case False
    have lt: "(j - 1) div 2 < length h" using "1.prems" by simp
    have "mset (heap_up (Swap h ((j - 1) div 2) j) ((j - 1) div 2))
        = mset (Swap h ((j - 1) div 2) j)"
      using "1.IH" [OF refl False] lt by simp
    moreover have "mset (Swap h ((j - 1) div 2) j) = mset h"
      using lt "1.prems" by (simp add: mset_Swap)
    moreover have "heap_up h j = heap_up (Swap h ((j - 1) div 2) j) ((j - 1) div 2)"
      using False by (subst heap_up.simps) (simp add: Let_def)
    ultimately show ?thesis by simp
  qed
qed

lemma heap_Init_fold:
  "n \<le> length h \<Longrightarrow>
   length (foldl (\<lambda>h' i. heap_down h' i n) h is) = length h
   \<and> mset (foldl (\<lambda>h' i. heap_down h' i n) h is) = mset h"
  by (induction "is" arbitrary: h) (simp_all add: mset_heap_down)

lemma length_heap_Init [simp]: "length (heap_Init h) = length h"
  using heap_Init_fold [of "length h" h] by (simp add: heap_Init_def)

lemma mset_heap_Init [simp]: "mset (heap_Init h) = mset h"
  using heap_Init_fold [of "length h" h] by (simp add: heap_Init_def)

lemma mset_heap_Push [simp]: "mset (heap_Push h x) = add_mset x (mset h)"
  by (simp add: heap_Push_def Push_def Let_def mset_heap_up)

lemma heap_Pop_Some:
  assumes "h \<noteq> []"
  shows "\<exists>x h'. heap_Pop h = Some (x, h') \<and> Suc (length h') = length h
           \<and> mset h = add_mset x (mset h')"
proof -
  let ?n = "length h - 1"
  let ?h2 = "heap_down (Swap h 0 ?n) 0 ?n"
  have len: "length ?h2 = length h" by simp
  have ne: "?h2 \<noteq> []"
  proof
    assume "?h2 = []"
    then have "length ?h2 = 0" by simp
    then show False using assms by (simp only: length_heap_down length_Swap) simp
  qed
  have ms: "mset ?h2 = mset h"
    using assms by (simp add: mset_heap_down mset_Swap)
  have "heap_Pop h = Some (last ?h2, butlast ?h2)"
    using assms ne by (simp add: heap_Pop_def Pop_def Let_def)
  moreover have "Suc (length (butlast ?h2)) = length h"
    using len assms by simp
  moreover have "mset h = add_mset (last ?h2) (mset (butlast ?h2))"
  proof -
    have "?h2 = butlast ?h2 @ [last ?h2]" using ne by simp
    then have "mset ?h2 = add_mset (last ?h2) (mset (butlast ?h2))"
      by (metis mset.simps(2) mset_append union_mset_add_mset_right add.right_neutral mset.simps(1))
    then show ?thesis using ms by simp
  qed
  ultimately show ?thesis by blast
qed

lemma heap_Pop_None [simp]: "heap_Pop [] = None"
  by (simp add: heap_Pop_def)

lemma heap_Pop_mset: "heap_Pop h = Some (x, h') \<Longrightarrow> mset h = add_mset x (mset h')"
  using heap_Pop_Some [of h] by (cases "h = []") auto

lemma BuildTree_loop_correct:
  "trees \<noteq> [] \<Longrightarrow>
   \<exists>t. BuildTree_loop trees = Some t
     \<and> leaves_of t = (\<Sum>x\<in>#mset trees. leaves_of x)
     \<and> Freq t = (\<Sum>x\<in>#mset trees. Freq x)"
proof (induction trees rule: BuildTree_loop.induct)
  case (1 trees)
  obtain a trees1 where a: "heap_Pop trees = Some (a, trees1)"
    "Suc (length trees1) = length trees" "mset trees = add_mset a (mset trees1)"
    using heap_Pop_Some [OF "1.prems"] by blast
  show ?case
  proof (cases "length trees > 1")
    case False
    then have "length trees1 = 0" using a(2) by linarith
    then have "trees1 = []" by simp
    then have "mset trees = {#a#}" using a(3) by simp
    moreover have "BuildTree_loop trees = Some a"
      using False a(1) by (subst BuildTree_loop.simps) simp
    ultimately show ?thesis by simp
  next
    case True
    then have "trees1 \<noteq> []" using a(2) by auto
    then obtain b trees2 where b: "heap_Pop trees1 = Some (b, trees2)"
      "mset trees1 = add_mset b (mset trees2)"
      using heap_Pop_Some [of trees1] by blast
    let ?q = "heap_Push trees2 (Node (Freq a + Freq b) 0 a b)"
    have ne: "?q \<noteq> []" by (metis length_heap_Push length_0_conv nat.distinct(1))
    from "1.IH" [OF True a(1) refl b(1) refl ne]
    obtain t where t: "BuildTree_loop ?q = Some t"
      "leaves_of t = (\<Sum>x\<in>#mset ?q. leaves_of x)" "Freq t = (\<Sum>x\<in>#mset ?q. Freq x)"
      by blast
    have "BuildTree_loop trees = Some t"
      using True a(1) b(1) t(1) by (subst BuildTree_loop.simps) simp
    moreover have "leaves_of t = (\<Sum>x\<in>#mset trees. leaves_of x)"
      using t(2) a(3) b(2) by (simp add: ac_simps)
    moreover have "Freq t = (\<Sum>x\<in>#mset trees. Freq x)"
      using t(3) a(3) b(2) by simp
    ultimately show ?thesis by blast
  qed
qed

lemma BuildTree_correct:
  assumes "leaves \<noteq> []"
  shows "\<exists>t. BuildTree leaves = Some t \<and> leaves_of t = mset leaves
           \<and> Freq t = sum_list (map Frequency leaves)"
proof -
  have ne: "heap_Init (map Leaf leaves) \<noteq> []"
    using assms by (metis length_heap_Init length_map length_0_conv)
  have l: "(\<Sum>x\<in>#mset (map Leaf leaves). leaves_of x) = mset leaves"
    by (induction leaves) simp_all
  have f: "(\<Sum>x\<in>#mset (map Leaf leaves). Freq x) = sum_list (map Frequency leaves)"
    by (induction leaves) simp_all
  from BuildTree_loop_correct [OF ne] l f show ?thesis
    by (simp add: BuildTree_def)
qed

section \<open>Tables, encoding and decoding\<close>

subsection \<open>The frequency table\<close>

lemma frequencies_fold:
  "foldl (\<lambda>m char. m(char \<mapsto> (case m char of None \<Rightarrow> 0 | Some n \<Rightarrow> n) + 1)) m s c
     = (if c \<in> set s
        then Some ((case m c of None \<Rightarrow> 0 | Some n \<Rightarrow> n) + int (count_list s c))
        else m c)"
  by (induction s arbitrary: m) auto

lemma frequencies_eq:
  "frequencies s c = (if c \<in> set s then Some (int (count_list s c)) else None)"
  by (simp add: frequencies_def frequencies_fold)

lemma dom_frequencies: "dom (frequencies s) = set s"
  by (auto simp: frequencies_eq dom_def)

lemma range_pairs_total:
  "set ks \<subseteq> dom m \<Longrightarrow> range_pairs m ks = map (\<lambda>k. (k, the (m k))) ks"
  by (induction ks) (auto simp: range_pairs_def List.map_filter_simps)

lemma BuildFrequencyTable_eq:
  assumes "range_order (frequencies s) ks"
  shows "BuildFrequencyTable ks s
     = map (\<lambda>char. \<lparr>Frequency = int (count_list s char), Value = char, Char = [char]\<rparr>) ks"
proof -
  have sub: "set ks \<subseteq> dom (frequencies s)" and ks: "set ks = set s"
    using assms by (auto simp: range_order_def dom_frequencies)
  show ?thesis
    unfolding BuildFrequencyTable_def range_pairs_total [OF sub]
    using ks by (simp add: frequencies_eq)
qed

lemma BuildFrequencyTable_Values:
  "range_order (frequencies s) ks \<Longrightarrow> map Value (BuildFrequencyTable ks s) = ks"
  by (simp add: BuildFrequencyTable_eq comp_def)

lemma BuildFrequencyTable_sum:
  assumes "range_order (frequencies s) ks"
  shows "sum_list (map Frequency (BuildFrequencyTable ks s)) = int (length s)"
proof -
  have d: "distinct ks" and ks: "set ks = set s"
    using assms by (auto simp: range_order_def dom_frequencies)
  have "sum_list (map Frequency (BuildFrequencyTable ks s))
      = sum_list (map (\<lambda>c. int (count_list s c)) ks)"
    by (simp add: BuildFrequencyTable_eq [OF assms] comp_def)
  also have "\<dots> = (\<Sum>c\<in>set ks. int (count_list s c))"
    by (rule sum_list_distinct_conv_sum_set [OF d])
  also have "\<dots> = int (\<Sum>c\<in>set s. count_list s c)"
    by (simp add: ks)
  also have "\<dots> = int (length s)"
    by (simp add: sum_count_set)
  finally show ?thesis .
qed

subsection \<open>The code table\<close>

lemma buildEncoding_prefix:
  "buildEncoding t p x = Some c \<Longrightarrow> prefix p c"
proof (induction t arbitrary: p)
  case (Leaf hl)
  then show ?case by (auto split: if_splits)
next
  case (Node f v l r)
  from Node.prems
  have "buildEncoding r (p @ [49]) x = Some c \<or> buildEncoding l (p @ [48]) x = Some c"
    by (auto simp: map_add_Some_iff)
  then show ?case
    using Node.IH append_prefixD by blast
qed

lemma buildEncoding_Node_longer:
  assumes "buildEncoding (Node f v l r) p x = Some c"
  shows "length p < length c"
proof -
  from assms
  have "buildEncoding r (p @ [49]) x = Some c \<or> buildEncoding l (p @ [48]) x = Some c"
    by (auto simp: map_add_Some_iff)
  then have "prefix (p @ [49]) c \<or> prefix (p @ [48]) c"
    using buildEncoding_prefix by blast
  then show ?thesis
    using prefix_length_le by fastforce
qed

lemma buildEncoding_dom:
  "dom (buildEncoding t p) = Value ` set_mset (leaves_of t)"
  by (induction t arbitrary: p) auto

lemma buildEncoding_prefix_free:
  "x \<noteq> y \<Longrightarrow> buildEncoding t p x = Some c1 \<Longrightarrow> buildEncoding t p y = Some c2 \<Longrightarrow>
   \<not> prefix c1 c2"
proof (induction t arbitrary: p)
  case (Leaf hl)
  then show ?case by (auto split: if_splits)
next
  case (Node f v l r)
  from Node.prems(2)
  have x: "buildEncoding r (p @ [49]) x = Some c1 \<or> buildEncoding l (p @ [48]) x = Some c1"
    by (auto simp: map_add_Some_iff)
  from Node.prems(3)
  have y: "buildEncoding r (p @ [49]) y = Some c2 \<or> buildEncoding l (p @ [48]) y = Some c2"
    by (auto simp: map_add_Some_iff)
  have cross: "\<not> prefix d1 d2" if "prefix (p @ [a]) d1" "prefix (p @ [b]) d2" "a \<noteq> b"
    for a b :: rune and d1 d2
  proof
    assume "prefix d1 d2"
    then have "prefix (p @ [a]) d2" using that(1) by auto
    then have "prefix (p @ [a]) (p @ [b]) \<or> prefix (p @ [b]) (p @ [a])"
      using that(2) prefix_same_cases by blast
    then show False using that(3) by auto
  qed
  from x y show ?case
  proof (elim disjE)
    assume "buildEncoding r (p @ [49]) x = Some c1" "buildEncoding r (p @ [49]) y = Some c2"
    then show ?thesis using Node.IH(2) Node.prems(1) by blast
  next
    assume "buildEncoding l (p @ [48]) x = Some c1" "buildEncoding l (p @ [48]) y = Some c2"
    then show ?thesis using Node.IH(1) Node.prems(1) by blast
  next
    assume "buildEncoding r (p @ [49]) x = Some c1" "buildEncoding l (p @ [48]) y = Some c2"
    then show ?thesis
      using cross [of 49 c1 48 c2] buildEncoding_prefix by simp
  next
    assume "buildEncoding l (p @ [48]) x = Some c1" "buildEncoding r (p @ [49]) y = Some c2"
    then show ?thesis
      using cross [of 48 c1 49 c2] buildEncoding_prefix by simp
  qed
qed

subsection \<open>The reversed table\<close>

lemma range_pairs_member:
  "(k, v) \<in> set (range_pairs m ks) \<longleftrightarrow> k \<in> set ks \<and> m k = Some v"
  by (induction ks) (auto simp: range_pairs_def List.map_filter_simps split: option.splits)

lemma reverse_fold_Some:
  "foldl reverse_step r0 ps c = Some x \<Longrightarrow> r0 c = Some x \<or> (x, c) \<in> set ps"
proof (induction ps arbitrary: r0)
  case Nil
  then show ?case by simp
next
  case (Cons kv ps)
  from Cons.prems have "foldl reverse_step (reverse_step r0 kv) ps c = Some x" by simp
  from Cons.IH [OF this] show ?case
    by (cases kv) (auto simp: reverse_step_def split: if_splits)
qed

lemma reverse_fold_defined:
  "r0 c \<noteq> None \<or> (\<exists>k. (k, c) \<in> set ps) \<Longrightarrow> foldl reverse_step r0 ps c \<noteq> None"
proof (induction ps arbitrary: r0)
  case Nil
  then show ?case by simp
next
  case (Cons kv ps)
  have "reverse_step r0 kv c \<noteq> None \<or> (\<exists>k. (k, c) \<in> set ps)"
    using Cons.prems by (cases kv) (auto simp: reverse_step_def)
  from Cons.IH [of "reverse_step r0 kv", OF this] show ?case by simp
qed

lemma reverseMap_Some:
  "reverseMap ks m c = Some x \<Longrightarrow> m x = Some c"
  unfolding reverseMap_def
  using reverse_fold_Some [of Map.empty "range_pairs m ks" c x]
  by (simp add: range_pairs_member)

lemma reverseMap_defined:
  assumes "range_order m ks" and "m x = Some c"
  shows "reverseMap ks m c \<noteq> None"
proof -
  have "x \<in> set ks" using assms by (auto simp: range_order_def)
  then have "(x, c) \<in> set (range_pairs m ks)"
    using assms(2) by (simp add: range_pairs_member)
  then show ?thesis
    unfolding reverseMap_def
    using reverse_fold_defined [of Map.empty c "range_pairs m ks"] by blast
qed

subsection \<open>Decoding a stream of codes\<close>

lemma prefix_free_reverse:
  assumes "range_order enc ks" and "prefix_free enc" and "enc x = Some c"
  shows "reverseMap ks enc c = Some x"
proof -
  obtain y where y: "reverseMap ks enc c = Some y"
    using reverseMap_defined [OF assms(1,3)] by auto
  then have "enc y = Some c" by (rule reverseMap_Some)
  then have "y = x"
    using assms(2,3) unfolding prefix_free_def by (metis prefix_order.order_refl)
  then show ?thesis using y by simp
qed

lemma decode_symbol:
  assumes "range_order enc ks" and "prefix_free enc"
  shows "enc x = Some (pre @ suf) \<Longrightarrow> suf \<noteq> [] \<Longrightarrow>
         decode_loop (reverseMap ks enc) (suf @ bits) decoded pre
           = decode_loop (reverseMap ks enc) bits (decoded @ [x]) []"
proof (induction suf arbitrary: pre)
  case Nil
  then show ?case by simp
next
  case (Cons b suf)
  show ?case
  proof (cases "suf = []")
    case True
    then have "reverseMap ks enc (pre @ [b]) = Some x"
      using prefix_free_reverse [OF assms] Cons.prems(1) by simp
    then show ?thesis using True by simp
  next
    case False
    have none: "reverseMap ks enc (pre @ [b]) = None"
    proof (rule ccontr)
      assume "reverseMap ks enc (pre @ [b]) \<noteq> None"
      then obtain y where "reverseMap ks enc (pre @ [b]) = Some y" by auto
      then have y: "enc y = Some (pre @ [b])" by (rule reverseMap_Some)
      have p: "prefix (pre @ [b]) (pre @ b # suf)" by simp
      have "y \<noteq> x" using y Cons.prems(1) False by auto
      then show False
        using assms(2) y Cons.prems(1) p unfolding prefix_free_def by blast
    qed
    have "enc x = Some ((pre @ [b]) @ suf)" using Cons.prems(1) by simp
    from Cons.IH [OF this False] none show ?thesis by simp
  qed
qed

lemma applyHuffmanEncoding_fold:
  "foldl (encode_step encoding) acc s
     = acc @ concat (map (\<lambda>c. case encoding c of None \<Rightarrow> [] | Some v \<Rightarrow> v) s)"
  by (induction s arbitrary: acc) (simp_all add: encode_step_def)

lemma applyHuffmanEncoding_concat:
  "applyHuffmanEncoding s encoding
     = concat (map (\<lambda>c. case encoding c of None \<Rightarrow> [] | Some v \<Rightarrow> v) s)"
  by (simp add: applyHuffmanEncoding_def applyHuffmanEncoding_fold)

lemma applyHuffmanEncoding_Nil [simp]: "applyHuffmanEncoding [] encoding = []"
  by (simp add: applyHuffmanEncoding_def)

lemma applyHuffmanEncoding_Cons:
  "applyHuffmanEncoding (c # s) encoding
     = (case encoding c of None \<Rightarrow> [] | Some v \<Rightarrow> v) @ applyHuffmanEncoding s encoding"
  by (simp add: applyHuffmanEncoding_concat)

lemma decode_all:
  assumes "range_order enc ks" and "prefix_free enc"
    and "\<forall>x c. enc x = Some c \<longrightarrow> c \<noteq> []"
  shows "set s \<subseteq> dom enc \<Longrightarrow>
         decode_loop (reverseMap ks enc) (applyHuffmanEncoding s enc) decoded []
           = (decoded @ s, [])"
proof (induction s arbitrary: decoded)
  case Nil
  then show ?case by simp
next
  case (Cons x s)
  then obtain c where c: "enc x = Some c" by auto
  then have ne: "c \<noteq> []" using assms(3) by blast
  have "decode_loop (reverseMap ks enc) (c @ applyHuffmanEncoding s enc) decoded []
      = decode_loop (reverseMap ks enc) (applyHuffmanEncoding s enc) (decoded @ [x]) []"
    using decode_symbol [OF assms(1,2), of x "[]" c] c ne by simp
  also have "\<dots> = ((decoded @ [x]) @ s, [])"
    using Cons.IH [of "decoded @ [x]"] Cons.prems by simp
  finally show ?case by (simp add: applyHuffmanEncoding_Cons c)
qed

lemma decode_loop_leftover_unmatched:
  "code0 = [] \<or> reversed code0 = None \<Longrightarrow>
   decode_loop reversed s decoded0 code0 = (decoded, code) \<Longrightarrow>
   code = [] \<or> reversed code = None"
proof (induction s arbitrary: decoded0 code0)
  case Nil
  then show ?case by auto
next
  case (Cons c s)
  show ?case
  proof (cases "reversed (code0 @ [c])")
    case None
    then have "decode_loop reversed s decoded0 (code0 @ [c]) = (decoded, code)"
      using Cons.prems(2) by simp
    from Cons.IH [OF _ this] None show ?thesis by simp
  next
    case (Some val)
    then have "decode_loop reversed s (decoded0 @ [val]) [] = (decoded, code)"
      using Cons.prems(2) by simp
    from Cons.IH [OF _ this] show ?thesis by simp
  qed
qed

lemma decode_loop_split:
  "decode_loop reversed s decoded0 code0 = (decoded, code) \<Longrightarrow>
   (code = code0 @ s \<and> decoded = decoded0)
   \<or> (\<exists>s1. s = s1 @ code \<and> decode_loop reversed s1 decoded0 code0 = (decoded, []))"
proof (induction s arbitrary: decoded0 code0)
  case Nil
  then show ?case by simp
next
  case (Cons c s)
  show ?case
  proof (cases "reversed (code0 @ [c])")
    case None
    then have "decode_loop reversed s decoded0 (code0 @ [c]) = (decoded, code)"
      using Cons.prems by simp
    from Cons.IH [OF this] show ?thesis
    proof
      assume "code = (code0 @ [c]) @ s \<and> decoded = decoded0"
      then show ?thesis by simp
    next
      assume "\<exists>s1. s = s1 @ code \<and> decode_loop reversed s1 decoded0 (code0 @ [c]) = (decoded, [])"
      then obtain s1 where "s = s1 @ code"
        "decode_loop reversed s1 decoded0 (code0 @ [c]) = (decoded, [])" by blast
      then have "c # s = (c # s1) @ code
          \<and> decode_loop reversed (c # s1) decoded0 code0 = (decoded, [])"
        using None by simp
      then show ?thesis by blast
    qed
  next
    case (Some val)
    then have "decode_loop reversed s (decoded0 @ [val]) [] = (decoded, code)"
      using Cons.prems by simp
    from Cons.IH [OF this] show ?thesis
    proof
      assume "code = [] @ s \<and> decoded = decoded0 @ [val]"
      then have "c # s = [c] @ code
          \<and> decode_loop reversed [c] decoded0 code0 = (decoded, [])"
        using Some by simp
      then show ?thesis by blast
    next
      assume "\<exists>s1. s = s1 @ code \<and> decode_loop reversed s1 (decoded0 @ [val]) [] = (decoded, [])"
      then obtain s1 where "s = s1 @ code"
        "decode_loop reversed s1 (decoded0 @ [val]) [] = (decoded, [])" by blast
      then have "c # s = (c # s1) @ code
          \<and> decode_loop reversed (c # s1) decoded0 code0 = (decoded, [])"
        using Some by simp
      then show ?thesis by blast
    qed
  qed
qed

lemma table_of_built_tree:
  assumes "2 \<le> length leaves"
  shows "\<exists>t. BuildTree leaves = Some t
           \<and> dom (buildEncoding t []) = Value ` set leaves
           \<and> prefix_free (buildEncoding t [])
           \<and> (\<forall>x c. buildEncoding t [] x = Some c \<longrightarrow> c \<noteq> [])"
proof -
  have "leaves \<noteq> []" using assms by auto
  then obtain t where t: "BuildTree leaves = Some t" "leaves_of t = mset leaves"
    using BuildTree_correct by blast
  have "size (leaves_of t) = length leaves" using t(2) by simp
  then have "2 \<le> size (leaves_of t)" using assms by simp
  then obtain f v l r where node: "t = Node f v l r" by (cases t) auto
  have "dom (buildEncoding t []) = Value ` set leaves"
    by (simp only: buildEncoding_dom t(2) set_mset_mset)
  moreover have "prefix_free (buildEncoding t [])"
    unfolding prefix_free_def using buildEncoding_prefix_free by blast
  moreover have "\<forall>x c. buildEncoding t [] x = Some c \<longrightarrow> c \<noteq> []"
    using buildEncoding_Node_longer [of f v l r "[]"] node by fastforce
  ultimately show ?thesis using t(1) by blast
qed

lemma prefix_freeD:
  "prefix_free enc \<Longrightarrow> x \<noteq> y \<Longrightarrow> enc x = Some c1 \<Longrightarrow> enc y = Some c2 \<Longrightarrow> \<not> prefix c1 c2"
  unfolding prefix_free_def by blast

section \<open>The case-shift loops\<close>

lemma applyShift_loop_acc:
  "applyShift_loop U s b acc = acc @ applyShift_loop U s b []"
proof (induction s arbitrary: b acc)
  case Nil
  then show ?case by simp
next
  case (Cons c cs)
  show ?case
    using Cons.IH [of _ "acc @ [shift_in, ToLower U c]"] Cons.IH [of _ "[shift_in, ToLower U c]"]
      Cons.IH [of _ "acc @ [shift_out, c]"] Cons.IH [of _ "[shift_out, c]"]
      Cons.IH [of _ "acc @ [ToLower U c]"] Cons.IH [of _ "[ToLower U c]"]
      Cons.IH [of _ "acc @ [c]"] Cons.IH [of _ "[c]"]
    by simp
qed

lemma removeShift_loop_acc:
  "removeShift_loop U s b acc = acc @ removeShift_loop U s b []"
proof (induction s arbitrary: b acc)
  case Nil
  then show ?case by simp
next
  case (Cons c cs)
  show ?case
    using Cons.IH [of _ acc]
      Cons.IH [of _ "acc @ [ToUpper U c]"] Cons.IH [of _ "[ToUpper U c]"]
      Cons.IH [of _ "acc @ [c]"] Cons.IH [of _ "[c]"]
    by simp
qed

lemma shift_loops_inverse:
  assumes "shift_in \<notin> set s" and "shift_out \<notin> set s"
    and "\<forall>c\<in>set s. IsUpper U c \<or> \<not> IsLower U c \<longrightarrow>
           ToUpper U (ToLower U c) = c \<and> ToLower U c \<noteq> shift_in \<and> ToLower U c \<noteq> shift_out"
  shows "removeShift_loop U (applyShift_loop U s b []) b [] = s"
  using assms
proof (induction s arbitrary: b)
  case Nil
  then show ?case by simp
next
  case (Cons c cs)
  have IH: "removeShift_loop U (applyShift_loop U cs b' []) b' [] = cs" for b'
    using Cons.IH [of b'] Cons.prems by simp
  have c: "c \<noteq> shift_in" "c \<noteq> shift_out" using Cons.prems by auto
  have rev: "IsUpper U c \<or> \<not> IsLower U c \<Longrightarrow>
      ToUpper U (ToLower U c) = c \<and> ToLower U c \<noteq> shift_in \<and> ToLower U c \<noteq> shift_out"
    using Cons.prems(3) by auto
  consider (up) "IsUpper U c" "\<not> b" | (down) "\<not> (IsUpper U c \<and> \<not> b)" "IsLower U c" "b"
    | (low) "\<not> (IsUpper U c \<and> \<not> b)" "\<not> (IsLower U c \<and> b)" "b"
    | (plain) "\<not> (IsUpper U c \<and> \<not> b)" "\<not> (IsLower U c \<and> b)" "\<not> b"
    by blast
  then show ?case
  proof cases
    case up
    have a: "applyShift_loop U (c # cs) b [] = [shift_in, ToLower U c] @ applyShift_loop U cs True []"
      using up applyShift_loop_acc [of U cs True "[shift_in, ToLower U c]"] by simp
    show ?thesis
      unfolding a using up rev IH [of True]
        removeShift_loop_acc [of U "applyShift_loop U cs True []" True "[c]"]
      by simp
  next
    case down
    have a: "applyShift_loop U (c # cs) b [] = [shift_out, c] @ applyShift_loop U cs False []"
      using down applyShift_loop_acc [of U cs False "[shift_out, c]"] by simp
    show ?thesis
      unfolding a using down c IH [of False]
        removeShift_loop_acc [of U "applyShift_loop U cs False []" False "[c]"]
      by (simp add: shift_in_def shift_out_def)
  next
    case low
    have a: "applyShift_loop U (c # cs) b [] = [ToLower U c] @ applyShift_loop U cs True []"
      using low applyShift_loop_acc [of U cs True "[ToLower U c]"] by simp
    have "\<not> IsLower U c" using low by simp
    then show ?thesis
      unfolding a using low rev IH [of True]
        removeShift_loop_acc [of U "applyShift_loop U cs True []" True "[c]"]
      by simp
  next
    case plain
    have a: "applyShift_loop U (c # cs) b [] = [c] @ applyShift_loop U cs False []"
      using plain applyShift_loop_acc [of U cs False "[c]"] by simp
    show ?thesis
      unfolding a using plain c IH [of False]
        removeShift_loop_acc [of U "applyShift_loop U cs False []" False "[c]"]
      by simp
  qed
qed

lemma applyShift_loop_no_upper:
  assumes "\<not> IsUpper U shift_in" and "\<not> IsUpper U shift_out"
    and "\<forall>c\<in>set s. \<not> IsUpper U (ToLower U c) \<and> \<not> (IsUpper U c \<and> IsLower U c)"
    and "\<forall>x\<in>set acc. \<not> IsUpper U x"
  shows "\<forall>x\<in>set (applyShift_loop U s b acc). \<not> IsUpper U x"
  using assms(3,4)
proof (induction s arbitrary: b acc)
  case Nil
  then show ?case by simp
next
  case (Cons c cs)
  have rest: "\<forall>c\<in>set cs. \<not> IsUpper U (ToLower U c) \<and> \<not> (IsUpper U c \<and> IsLower U c)"
    using Cons.prems(1) by simp
  have lc: "\<not> IsUpper U (ToLower U c)" and dj: "\<not> (IsUpper U c \<and> IsLower U c)"
    using Cons.prems(1) by simp_all
  consider (up) "IsUpper U c" "\<not> b" | (down) "\<not> (IsUpper U c \<and> \<not> b)" "IsLower U c" "b"
    | (low) "\<not> (IsUpper U c \<and> \<not> b)" "\<not> (IsLower U c \<and> b)" "b"
    | (plain) "\<not> (IsUpper U c \<and> \<not> b)" "\<not> (IsLower U c \<and> b)" "\<not> b"
    by blast
  then show ?case
  proof cases
    case up
    have "\<forall>x\<in>set (acc @ [shift_in, ToLower U c]). \<not> IsUpper U x"
      using Cons.prems(2) assms(1) lc by simp
    from Cons.IH [OF rest this, of True] up show ?thesis by simp
  next
    case down
    have "\<not> IsUpper U c" using down dj by blast
    then have "\<forall>x\<in>set (acc @ [shift_out, c]). \<not> IsUpper U x"
      using Cons.prems(2) assms(2) by simp
    from Cons.IH [OF rest this, of False] down show ?thesis by simp
  next
    case low
    have "\<forall>x\<in>set (acc @ [ToLower U c]). \<not> IsUpper U x"
      using Cons.prems(2) lc by simp
    from Cons.IH [OF rest this, of b] low show ?thesis by simp
  next
    case plain
    then have "\<not> IsUpper U c" by blast
    then have "\<forall>x\<in>set (acc @ [c]). \<not> IsUpper U x"
      using Cons.prems(2) by simp
    from Cons.IH [OF rest this, of b] plain show ?thesis by simp
  qed
qed

chapter \<open>The claims\<close>

section \<open>Claims about LZ77\<close>




text \<open>
  Claim C5, as stated, asks for \<open>0 \<le> distance \<le> windowSize\<close> and \<open>0 \<le> length < windowSize\<close>
  on every token. The strict bound on the length fails: on the input \<open>aa\<close> with window 1
  the second token has length 1.
\<close>

theorem LZ77Compress_length_bound_counterexample:
  "(0::int) < 1
   \<and> last (LZ77Compress [97, 97] 1) \<in> set (LZ77Compress [97, 97] 1)
   \<and> \<not> Length (last (LZ77Compress [97, 97] 1)) < 1"
  by (simp add: LZ77Compress_def LZ77Compress_loop.simps longestMatch_def
        longestMatch_loop.simps match_loop.simps)

text \<open>
  Claim C5, amended. For every byte sequence and every positive window size, every token
  emitted by \<^verbatim>\<open>LZ77Compress\<close> satisfies \<open>0 \<le> distance \<le> windowSize\<close> and
  \<open>0 \<le> length \<le> windowSize\<close> (the length may equal the window size).
\<close>

theorem LZ77Compress_token_bounds:
  assumes "0 < windowSize" and "tok \<in> set (LZ77Compress input windowSize)"
  shows "0 \<le> Distance tok \<and> Distance tok \<le> windowSize
       \<and> 0 \<le> Length tok \<and> Length tok \<le> windowSize"
proof -
  from assms(2) obtain j where
    tok: "Distance tok = snd (longestMatch input j windowSize)"
      "Length tok = fst (longestMatch input j windowSize)"
    unfolding LZ77Compress_def using LZ77Compress_loop_tokens by blast
  have m: "longestMatch input j windowSize = (Length tok, Distance tok)"
    using tok by simp
  have "Length tok \<le> Distance tok" by (rule longestMatch_len_le_dist [OF m])
  moreover have "0 \<le> Length tok"
    using longestMatch_len_nonneg [of input j windowSize] tok by simp
  moreover have "Distance tok \<le> windowSize"
    using longestMatch_cases [OF m] assms(1) by auto
  ultimately show ?thesis by simp
qed

theorem LZ77Compress_token_bounds_witness:
  "(0::int) < 1
   \<and> \<lparr>Distance = 1, Length = 1, Next = 0\<rparr> \<in> set (LZ77Compress [97, 97] 1)
   \<and> 0 \<le> Distance \<lparr>Distance = 1, Length = 1, Next = 0 :: byte\<rparr>
   \<and> Distance \<lparr>Distance = 1, Length = 1, Next = 0 :: byte\<rparr> \<le> 1
   \<and> 0 \<le> Length \<lparr>Distance = 1, Length = 1, Next = 0 :: byte\<rparr>
   \<and> Length \<lparr>Distance = 1, Length = 1, Next = 0 :: byte\<rparr> \<le> 1"
proof -
  have w: "(0::int) < 1" by simp
  have t: "\<lparr>Distance = 1, Length = 1, Next = 0\<rparr> \<in> set (LZ77Compress [97, 97] 1)"
    by (simp add: LZ77Compress_def LZ77Compress_loop.simps longestMatch_def
          longestMatch_loop.simps match_loop.simps)
  from LZ77Compress_token_bounds [OF w t] w t show ?thesis by simp
qed

text \<open>
  Claim C6, as stated, says that among window positions reaching the same maximal match
  length \<^verbatim>\<open>longestMatch\<close> returns the smallest distance. On \<open>aaa\<close> with the cursor at 2
  and window 2, positions 0 and 1 both match one byte; the result is distance 2, not 1.
\<close>

theorem longestMatch_smallest_distance_counterexample:
  "match_loop [97, 97, 97] 0 2 0 = 1
   \<and> match_loop [97, 97, 97] 1 2 0 = 1
   \<and> longestMatch [97, 97, 97] 2 2 = (1, 2)
   \<and> (2::int) - 1 < snd (longestMatch [97, 97, 97] 2 2)"
  by (simp add: longestMatch_def longestMatch_loop.simps match_loop.simps)

text \<open>
  Claim C6, amended. For every byte sequence, cursor position and window size, let a
  window position reach the maximal match length of the window (as each of two or more
  tied positions does). Then \<^verbatim>\<open>longestMatch\<close> returns that length; when the length is
  positive, the returned distance belongs to a window position reaching it and is at
  least the distance of every such position: ties go to the first position in scan order,
  the largest distance. When the maximal length is 0, the returned distance is 0.
\<close>

theorem longestMatch_tie_largest_distance:
  assumes "max 0 (current - windowSize) \<le> j" and "j < current"
    and "\<forall>k. max 0 (current - windowSize) \<le> k \<and> k < current
           \<longrightarrow> match_loop data k current 0 \<le> match_loop data j current 0"
  shows "fst (longestMatch data current windowSize) = match_loop data j current 0
       \<and> (if match_loop data j current 0 = 0
          then snd (longestMatch data current windowSize) = 0
          else current - j \<le> snd (longestMatch data current windowSize)
             \<and> max 0 (current - windowSize) \<le> current - snd (longestMatch data current windowSize)
             \<and> current - snd (longestMatch data current windowSize) < current
             \<and> match_loop data (current - snd (longestMatch data current windowSize)) current 0
                 = match_loop data j current 0)"
proof -
  let ?s = "max 0 (current - windowSize)"
  let ?m = "match_loop data j current 0"
  obtain L D where r: "longestMatch data current windowSize = (L, D)"
    by (cases "longestMatch data current windowSize")
  have i: "max ?s current = current" using assms(1,2) by simp
  have inv: "lm_inv data current ?s current L D"
    using longestMatch_inv [OF r] i by simp
  have m0: "0 \<le> ?m" by (rule match_loop_ge)
  have mL: "?m \<le> L"
    using inv assms(1,2) by (simp add: lm_inv_def)
  have Lm: "L \<le> ?m"
  proof (cases "L = 0")
    case True
    then show ?thesis using m0 by simp
  next
    case False
    then have "?s \<le> current - D" "current - D < current"
      "match_loop data (current - D) current 0 = L"
      using inv by (simp_all add: lm_inv_def)
    then show ?thesis using assms(3) by blast
  qed
  have eq: "L = ?m" using mL Lm by simp
  show ?thesis
  proof (cases "?m = 0")
    case True
    then have "D = 0" using inv eq by (simp add: lm_inv_def)
    then show ?thesis using True eq r by simp
  next
    case False
    then have L: "L \<noteq> 0" using eq by simp
    then have b: "?s \<le> current - D" "current - D < current"
      "match_loop data (current - D) current 0 = L"
      using inv by (simp_all add: lm_inv_def)
    have "\<forall>k. ?s \<le> k \<and> k < current \<and> match_loop data k current 0 = L \<longrightarrow> current - D \<le> k"
      using inv L by (simp add: lm_inv_def)
    then have "current - D \<le> j" using assms(1,2) eq by blast
    then have "current - j \<le> D" by simp
    then show ?thesis using False eq r b by simp
  qed
qed

theorem longestMatch_tie_largest_distance_witness:
  "max 0 (2 - 2) \<le> (1::int) \<and> (1::int) < 2
   \<and> match_loop [97, 97, 97] 0 2 0 \<le> match_loop [97, 97, 97] 1 2 0
   \<and> match_loop [97, 97, 97] 1 2 0 \<le> match_loop [97, 97, 97] 1 2 0
   \<and> match_loop [97, 97, 97] 0 2 0 = 1
   \<and> match_loop [97, 97, 97] 1 2 0 = 1
   \<and> fst (longestMatch [97, 97, 97] 2 2) = 1
   \<and> (2::int) - 1 \<le> snd (longestMatch [97, 97, 97] 2 2)
   \<and> (2::int) - 0 \<le> snd (longestMatch [97, 97, 97] 2 2)"
proof -
  have r: "max 0 (2 - 2) \<le> (1::int)" and c: "(1::int) < 2"
    by simp_all
  have e0: "match_loop [97, 97, 97] 0 2 0 = 1" and e1: "match_loop [97, 97, 97] 1 2 0 = 1"
    by (simp_all add: match_loop.simps)
  have mx: "\<forall>k. max 0 (2 - 2) \<le> k \<and> k < 2
      \<longrightarrow> match_loop [97, 97, 97] k 2 0 \<le> match_loop [97, 97, 97] 1 2 0"
  proof (intro allI impI)
    fix k :: int assume "max 0 (2 - 2) \<le> k \<and> k < 2"
    then have "k = 0 \<or> k = 1" by auto
    then show "match_loop [97, 97, 97] k 2 0 \<le> match_loop [97, 97, 97] 1 2 0"
      using e0 e1 by auto
  qed
  have d: "snd (longestMatch [97, 97, 97] 2 2) = 2"
    by (simp add: longestMatch_def longestMatch_loop.simps match_loop.simps)
  from longestMatch_tie_largest_distance [OF r c mx] e0 e1 d r c show ?thesis by simp
qed

text \<open>
  When no window position matches a single byte, the tie at length 0 is resolved to the
  distance 0, which belongs to no window position.
\<close>

lemma longestMatch_tie_at_zero:
  "match_loop [97, 98, 99] 0 2 0 = 0 \<and> match_loop [97, 98, 99] 1 2 0 = 0
   \<and> longestMatch [97, 98, 99] 2 2 = (0, 0)"
  by (simp add: longestMatch_def longestMatch_loop.simps match_loop.simps)

section \<open>Claims about the Huffman coder\<close>

text \<open>
  Claim C9. For every input string and every order in which the frequency map is ranged
  over, the counts of the entries returned by \<^verbatim>\<open>BuildFrequencyTable\<close> sum to the length
  of the input in symbols, with exactly one entry per distinct symbol; and when the list of
  entries is not empty, \<^verbatim>\<open>BuildTree\<close> returns a tree whose root frequency is that same
  sum.
\<close>

theorem frequency_conservation:
  assumes "range_order (frequencies s) ks"
  shows "sum_list (map Frequency (BuildFrequencyTable ks s)) = int (length s)
       \<and> distinct (map Value (BuildFrequencyTable ks s))
       \<and> set (map Value (BuildFrequencyTable ks s)) = set s
       \<and> (BuildFrequencyTable ks s \<noteq> [] \<longrightarrow>
            (\<exists>t. BuildTree (BuildFrequencyTable ks s) = Some t \<and> Freq t = int (length s)))"
proof -
  have "distinct ks" "set ks = set s"
    using assms by (auto simp: range_order_def dom_frequencies)
  then show ?thesis
    using BuildFrequencyTable_sum [OF assms] BuildFrequencyTable_Values [OF assms]
      BuildTree_correct [of "BuildFrequencyTable ks s"]
    by auto
qed

theorem frequency_conservation_witness:
  "range_order (frequencies [97, 98, 97]) [98, 97]
   \<and> sum_list (map Frequency (BuildFrequencyTable [98, 97] [97, 98, 97])) = int (length [97, 98, 97 :: rune])
   \<and> map Value (BuildFrequencyTable [98, 97] [97, 98, 97]) = [98, 97]
   \<and> BuildFrequencyTable [98, 97] [97, 98, 97] \<noteq> []
   \<and> (\<exists>t. BuildTree (BuildFrequencyTable [98, 97] [97, 98, 97]) = Some t \<and> Freq t = 3)"
proof -
  have ro: "range_order (frequencies [97, 98, 97]) [98, 97]"
    by (auto simp: range_order_def frequencies_def)
  have v: "map Value (BuildFrequencyTable [98, 97] [97, 98, 97]) = [98, 97]"
    by code_simp
  have ne: "BuildFrequencyTable [98, 97] [97, 98, 97] \<noteq> []"
    using v by auto
  have f: "sum_list (map Frequency (BuildFrequencyTable [98, 97] [97, 98, 97])) = 3"
    by code_simp
  from frequency_conservation [OF ro] ro v ne f
  show ?thesis by simp
qed

text \<open>
  Claim C2. For every tree that \<^verbatim>\<open>BuildTree\<close> builds from at least two frequency entries
  with distinct symbols, the table of \<^verbatim>\<open>buildEncoding\<close> has an entry for every symbol, and
  for any two distinct symbols of the table neither code is a prefix of the other (so the
  two codes differ).
\<close>

theorem buildEncoding_table_prefix_free:
  assumes "2 \<le> length leaves" and "distinct (map Value leaves)"
  shows "\<exists>t. BuildTree leaves = Some t
           \<and> dom (buildEncoding t []) = Value ` set leaves
           \<and> (\<forall>x y c1 c2. x \<noteq> y \<and> buildEncoding t [] x = Some c1
                  \<and> buildEncoding t [] y = Some c2
                \<longrightarrow> c1 \<noteq> c2 \<and> \<not> prefix c1 c2 \<and> \<not> prefix c2 c1)"
proof -
  from table_of_built_tree [OF assms(1)] obtain t where
    t: "BuildTree leaves = Some t" "dom (buildEncoding t []) = Value ` set leaves"
      "prefix_free (buildEncoding t [])" by blast
  have pf: "\<forall>x y c1 c2. x \<noteq> y \<and> buildEncoding t [] x = Some c1
                  \<and> buildEncoding t [] y = Some c2
                \<longrightarrow> c1 \<noteq> c2 \<and> \<not> prefix c1 c2 \<and> \<not> prefix c2 c1"
  proof (intro allI impI)
    fix x y c1 c2
    assume h: "x \<noteq> y \<and> buildEncoding t [] x = Some c1 \<and> buildEncoding t [] y = Some c2"
    have a: "\<not> prefix c1 c2"
      using prefix_freeD [OF t(3), of x y c1 c2] h by simp
    have b: "\<not> prefix c2 c1"
      using prefix_freeD [OF t(3), of y x c2 c1] h by simp
    have "c1 \<noteq> c2" using a by auto
    then show "c1 \<noteq> c2 \<and> \<not> prefix c1 c2 \<and> \<not> prefix c2 c1" using a b by simp
  qed
  from t(1,2) pf show ?thesis
    by (intro exI [of _ t] conjI)
qed


theorem buildEncoding_table_prefix_free_witness:
  "2 \<le> length [\<lparr>Frequency = 1, Value = 98, Char = [98]\<rparr>,
                \<lparr>Frequency = 2, Value = 97, Char = [97]\<rparr>,
                \<lparr>Frequency = 1, Value = 99, Char = [99]\<rparr>]
   \<and> distinct (map Value [\<lparr>Frequency = 1, Value = 98, Char = [98]\<rparr>,
                \<lparr>Frequency = 2, Value = 97, Char = [97]\<rparr>,
                \<lparr>Frequency = 1, Value = 99, Char = [99]\<rparr>])
   \<and> (\<exists>t. BuildTree [\<lparr>Frequency = 1, Value = 98, Char = [98]\<rparr>,
                \<lparr>Frequency = 2, Value = 97, Char = [97]\<rparr>,
                \<lparr>Frequency = 1, Value = 99, Char = [99]\<rparr>] = Some t
         \<and> (\<exists>c1 c2. buildEncoding t [] 97 = Some c1 \<and> buildEncoding t [] 98 = Some c2
               \<and> c1 \<noteq> c2 \<and> \<not> prefix c1 c2 \<and> \<not> prefix c2 c1))"
proof -
  define leaves where "leaves = [\<lparr>Frequency = 1, Value = 98, Char = [98]\<rparr>,
                \<lparr>Frequency = 2, Value = 97, Char = [97]\<rparr>,
                \<lparr>Frequency = (1::int), Value = 99, Char = [99]\<rparr>]"
  have l: "2 \<le> length leaves" and d: "distinct (map Value leaves)"
    by (simp_all add: leaves_def)
  from buildEncoding_table_prefix_free [OF l d] obtain t where
    t: "BuildTree leaves = Some t" and dm: "dom (buildEncoding t []) = Value ` set leaves"
    and pf: "\<forall>x y c1 c2. x \<noteq> y \<and> buildEncoding t [] x = Some c1
                  \<and> buildEncoding t [] y = Some c2
                \<longrightarrow> c1 \<noteq> c2 \<and> \<not> prefix c1 c2 \<and> \<not> prefix c2 c1"
    by (elim exE conjE)
  have "97 \<in> dom (buildEncoding t [])" "98 \<in> dom (buildEncoding t [])"
    unfolding dm by (simp_all add: leaves_def)
  then obtain c1 c2 where c: "buildEncoding t [] 97 = Some c1" "buildEncoding t [] 98 = Some c2"
    by (auto simp: dom_def)
  have ne: "(97::nat) \<noteq> 98" by simp
  have r: "c1 \<noteq> c2 \<and> \<not> prefix c1 c2 \<and> \<not> prefix c2 c1"
    using pf [rule_format, of 97 98 c1 c2] ne c by (simp only: simp_thms)
  have inner: "\<exists>c1 c2. buildEncoding t [] 97 = Some c1 \<and> buildEncoding t [] 98 = Some c2
               \<and> c1 \<noteq> c2 \<and> \<not> prefix c1 c2 \<and> \<not> prefix c2 c1"
    using c r by (intro exI [of _ c1] exI [of _ c2] conjI) simp_all
  have "\<exists>t. BuildTree leaves = Some t
         \<and> (\<exists>c1 c2. buildEncoding t [] 97 = Some c1 \<and> buildEncoding t [] 98 = Some c2
               \<and> c1 \<noteq> c2 \<and> \<not> prefix c1 c2 \<and> \<not> prefix c2 c1)"
    using t inner by (intro exI [of _ t] conjI)
  then show ?thesis using l d unfolding leaves_def by (intro conjI)
qed

text \<open>
  Claim C1. For every input string \<open>s\<close> with at least two distinct symbols, whatever the
  orders in which the two maps are ranged over, \<^verbatim>\<open>BuildTree\<close> returns a tree for the
  frequency table of \<open>s\<close>, and decoding the encoding of \<open>s\<close> with the table built from
  that tree gives back \<open>s\<close>.
\<close>

theorem huffman_roundtrip:
  assumes "2 \<le> card (set s)" and "range_order (frequencies s) ks"
  shows "\<exists>t. BuildTree (BuildFrequencyTable ks s) = Some t
           \<and> (\<forall>ks'. range_order (buildEncoding t []) ks' \<longrightarrow>
                 applyHuffmanDecoding ks' (applyHuffmanEncoding s (buildEncoding t []))
                   (buildEncoding t []) = s)"
proof -
  let ?leaves = "BuildFrequencyTable ks s"
  have ks: "distinct ks" "set ks = set s"
    using assms(2) by (auto simp: range_order_def dom_frequencies)
  have vals: "map Value ?leaves = ks"
    by (rule BuildFrequencyTable_Values [OF assms(2)])
  have "length ?leaves = length ks"
    using vals by (metis length_map)
  also have "\<dots> = card (set s)"
    using ks distinct_card by fastforce
  finally have two: "2 \<le> length ?leaves" using assms(1) by simp
  from table_of_built_tree [OF two] obtain t where
    t: "BuildTree ?leaves = Some t" "dom (buildEncoding t []) = Value ` set ?leaves"
      "prefix_free (buildEncoding t [])" "\<forall>x c. buildEncoding t [] x = Some c \<longrightarrow> c \<noteq> []"
    by blast
  have "Value ` set ?leaves = set (map Value ?leaves)" by simp
  then have dom: "set s \<subseteq> dom (buildEncoding t [])"
    using t(2) vals ks(2) by simp
  have "applyHuffmanDecoding ks' (applyHuffmanEncoding s (buildEncoding t []))
          (buildEncoding t []) = s"
    if "range_order (buildEncoding t []) ks'" for ks'
    using decode_all [OF that t(3,4) dom, of "[]"]
    by (simp add: applyHuffmanDecoding_def)
  then show ?thesis using t(1) by blast
qed

theorem huffman_roundtrip_witness:
  "2 \<le> card (set [97, 98, 97 :: rune])
   \<and> range_order (frequencies [97, 98, 97]) [98, 97]
   \<and> BuildTree (BuildFrequencyTable [98, 97] [97, 98, 97])
       = Some (Node 3 0 (Leaf \<lparr>Frequency = 1, Value = 98, Char = [98]\<rparr>)
                 (Leaf \<lparr>Frequency = 2, Value = 97, Char = [97]\<rparr>))
   \<and> range_order (buildEncoding (Node 3 0 (Leaf \<lparr>Frequency = 1, Value = 98, Char = [98]\<rparr>)
                 (Leaf \<lparr>Frequency = 2, Value = 97, Char = [97]\<rparr>)) []) [97, 98]
   \<and> applyHuffmanDecoding [97, 98]
         (applyHuffmanEncoding [97, 98, 97]
            (buildEncoding (Node 3 0 (Leaf \<lparr>Frequency = 1, Value = 98, Char = [98]\<rparr>)
                 (Leaf \<lparr>Frequency = 2, Value = 97, Char = [97]\<rparr>)) []))
         (buildEncoding (Node 3 0 (Leaf \<lparr>Frequency = 1, Value = 98, Char = [98]\<rparr>)
                 (Leaf \<lparr>Frequency = 2, Value = 97, Char = [97]\<rparr>)) [])
       = [97, 98, 97]"
proof -
  define T where "T = Node 3 0 (Leaf \<lparr>Frequency = 1, Value = 98, Char = [98]\<rparr>)
                 (Leaf \<lparr>Frequency = 2, Value = 97, Char = [97]\<rparr>)"
  have "set [97, 98, 97 :: rune] = {97, 98}" by auto
  then have c: "2 \<le> card (set [97, 98, 97 :: rune])" by simp
  have ro: "range_order (frequencies [97, 98, 97]) [98, 97]"
    by (auto simp: range_order_def frequencies_def)
  have bt: "BuildTree (BuildFrequencyTable [98, 97] [97, 98, 97]) = Some T"
    unfolding T_def by code_simp
  have ro': "range_order (buildEncoding T []) [97, 98]"
    by (auto simp: range_order_def T_def)
  from huffman_roundtrip [OF c ro] obtain t where
    t: "BuildTree (BuildFrequencyTable [98, 97] [97, 98, 97]) = Some t"
    and rt: "\<forall>ks'. range_order (buildEncoding t []) ks' \<longrightarrow>
                 applyHuffmanDecoding ks' (applyHuffmanEncoding [97, 98, 97] (buildEncoding t []))
                   (buildEncoding t []) = [97, 98, 97]"
    by (elim exE conjE)
  have "t = T" using t bt by simp
  then have "applyHuffmanDecoding [97, 98] (applyHuffmanEncoding [97, 98, 97] (buildEncoding T []))
                   (buildEncoding T []) = [97, 98, 97]"
    using rt [rule_format, of "[97, 98]"] ro' by simp
  then show ?thesis using c ro bt ro' unfolding T_def by (intro conjI)
qed

text \<open>
  Claim C7 on the input \<open>aaaa\<close>: \<^verbatim>\<open>BuildTree\<close> and \<^verbatim>\<open>buildEncoding\<close> complete (the
  tree is the single leaf, the table gives \<open>a\<close> the empty code), but the encoding of
  \<open>aaaa\<close> is then the empty stream and decoding it returns the empty string, not
  \<open>aaaa\<close>.
\<close>

theorem single_symbol_roundtrip_fails:
  "range_order (frequencies [97, 97, 97, 97]) [97]
   \<and> BuildTree (BuildFrequencyTable [97] [97, 97, 97, 97])
       = Some (Leaf \<lparr>Frequency = 4, Value = 97, Char = [97]\<rparr>)
   \<and> buildEncoding (Leaf \<lparr>Frequency = 4, Value = 97, Char = [97]\<rparr>) [] 97 = Some []
   \<and> applyHuffmanEncoding [97, 97, 97, 97]
        (buildEncoding (Leaf \<lparr>Frequency = 4, Value = 97, Char = [97]\<rparr>) []) = []
   \<and> applyHuffmanDecoding [97]
        (applyHuffmanEncoding [97, 97, 97, 97]
           (buildEncoding (Leaf \<lparr>Frequency = 4, Value = 97, Char = [97]\<rparr>) []))
        (buildEncoding (Leaf \<lparr>Frequency = 4, Value = 97, Char = [97]\<rparr>) []) = []"
proof -
  have ro: "range_order (frequencies [97, 97, 97, 97]) [97]"
    by (auto simp: range_order_def frequencies_def)
  have bt: "BuildTree (BuildFrequencyTable [97] [97, 97, 97, 97])
       = Some (Leaf \<lparr>Frequency = 4, Value = 97, Char = [97]\<rparr>)"
    by code_simp
  have enc: "applyHuffmanEncoding [97, 97, 97, 97]
        (buildEncoding (Leaf \<lparr>Frequency = 4, Value = 97, Char = [97]\<rparr>) []) = []"
    by (simp add: applyHuffmanEncoding_concat)
  have dec: "applyHuffmanDecoding [97] []
        (buildEncoding (Leaf \<lparr>Frequency = 4, Value = 97, Char = [97]\<rparr>) []) = []"
    by (simp add: applyHuffmanDecoding_def)
  show ?thesis using ro bt enc dec by simp
qed

text \<open>
  Claim C8, as stated, says that decoding fails when the stream ends with a non-empty
  buffer that matches no table entry. \<^verbatim>\<open>applyHuffmanDecoding\<close> has no failure result:
  with the table \<open>a \<mapsto> 00, b \<mapsto> 1\<close> and the stream \<open>10\<close> the buffer ends as the
  unmatched \<open>0\<close> and the function returns \<open>b\<close>, the symbols decoded so far.
\<close>

theorem applyHuffmanDecoding_no_failure_counterexample:
  "decode_loop (reverseMap [97, 98] [97 \<mapsto> [48, 48], 98 \<mapsto> [49]]) [49, 48] [] [] = ([98], [48])
   \<and> [48] \<noteq> ([] :: rune list)
   \<and> reverseMap [97, 98] [97 \<mapsto> [48, 48], 98 \<mapsto> [49]] [48] = None
   \<and> applyHuffmanDecoding [97, 98] [49, 48] [97 \<mapsto> [48, 48], 98 \<mapsto> [49]] = [98]"
  by (simp add: applyHuffmanDecoding_def reverseMap_def reverse_step_def range_pairs_def
        List.map_filter_simps)

text \<open>
  Claim C8, amended. For every bit stream and code table, if at end-of-stream the
  candidate buffer is non-empty (it then matches no table entry),
  \<^verbatim>\<open>applyHuffmanDecoding\<close> does not fail: it returns the symbols decoded so far, which
  is the decoding of the stream without the pending bits.
\<close>

theorem applyHuffmanDecoding_truncates:
  assumes "decode_loop (reverseMap ks encoding) s [] [] = (decoded, code)" and "code \<noteq> []"
  shows "reverseMap ks encoding code = None
       \<and> applyHuffmanDecoding ks s encoding = decoded
       \<and> (\<exists>s1. s = s1 @ code \<and> applyHuffmanDecoding ks s1 encoding = decoded)"
proof -
  have a: "reverseMap ks encoding code = None"
    using decode_loop_leftover_unmatched [OF _ assms(1)] assms(2) by simp
  have b: "applyHuffmanDecoding ks s encoding = decoded"
    using assms(1) by (simp add: applyHuffmanDecoding_def)
  from decode_loop_split [OF assms(1)]
  have "\<exists>s1. s = s1 @ code \<and> decode_loop (reverseMap ks encoding) s1 [] [] = (decoded, [])"
  proof
    assume "code = [] @ s \<and> decoded = []"
    then have "s = [] @ code \<and> decode_loop (reverseMap ks encoding) [] [] [] = (decoded, [])"
      by simp
    then show ?thesis by blast
  next
    assume "\<exists>s1. s = s1 @ code \<and> decode_loop (reverseMap ks encoding) s1 [] [] = (decoded, [])"
    then show ?thesis .
  qed
  then obtain s1 where "s = s1 @ code" "decode_loop (reverseMap ks encoding) s1 [] [] = (decoded, [])"
    by blast
  then have c: "\<exists>s1. s = s1 @ code \<and> applyHuffmanDecoding ks s1 encoding = decoded"
    by (intro exI [of _ s1]) (simp add: applyHuffmanDecoding_def)
  from a b c show ?thesis by (intro conjI)
qed

theorem applyHuffmanDecoding_truncates_witness:
  "decode_loop (reverseMap [97, 98] [97 \<mapsto> [48, 48], 98 \<mapsto> [49]]) [49, 48] [] [] = ([98], [48])
   \<and> [48] \<noteq> ([] :: rune list)
   \<and> reverseMap [97, 98] [97 \<mapsto> [48, 48], 98 \<mapsto> [49]] [48] = None
   \<and> applyHuffmanDecoding [97, 98] [49, 48] [97 \<mapsto> [48, 48], 98 \<mapsto> [49]] = [98]
   \<and> applyHuffmanDecoding [97, 98] [49] [97 \<mapsto> [48, 48], 98 \<mapsto> [49]] = [98]"
proof -
  have d: "decode_loop (reverseMap [97, 98] [97 \<mapsto> [48, 48], 98 \<mapsto> [49]]) [49, 48] [] []
      = ([98], [48])"
    by (simp add: reverseMap_def reverse_step_def range_pairs_def List.map_filter_simps)
  have n: "[48] \<noteq> ([] :: rune list)" by simp
  have e: "applyHuffmanDecoding [97, 98] [49] [97 \<mapsto> [48, 48], 98 \<mapsto> [49]] = [98]"
    by (simp add: applyHuffmanDecoding_def reverseMap_def reverse_step_def range_pairs_def
        List.map_filter_simps)
  from applyHuffmanDecoding_truncates [OF d n] d n e show ?thesis by (intro conjI) simp_all
qed

section \<open>Claims about the case-shift transform\<close>

text \<open>
  Claim C4, as stated, says that \<^verbatim>\<open>removeShiftString\<close> undoes \<^verbatim>\<open>applyShiftString\<close> on
  every string without the two markers. The string made of U+212A KELVIN SIGN alone has no
  marker; it is shifted to \<open>\<up>k\<close>, and unshifting gives the ASCII letter \<open>K\<close> (75), not
  the Kelvin sign (8490).
\<close>

theorem shift_roundtrip_counterexample:
  "shift_in \<notin> set [8490] \<and> shift_out \<notin> set [8490]
   \<and> applyShiftString go_unicode [8490] = [shift_in, 107]
   \<and> removeShiftString go_unicode (applyShiftString go_unicode [8490]) = [75]
   \<and> [75] \<noteq> [8490 :: rune]"
  by (simp add: applyShiftString_def removeShiftString_def go_unicode_def
        shift_in_def shift_out_def)

text \<open>
  Claim C4, amended. For every input string that is valid UTF-8 (a sequence of runes
  \<open>s\<close>, as strings are modelled here; a byte that is not valid UTF-8 is read as U+FFFD
  and is not restored), that contains neither marker, and in which every character that is
  uppercase or not lowercase is restored by \<^verbatim>\<open>ToUpper\<close> after \<^verbatim>\<open>ToLower\<close> and is not
  mapped to a marker by \<^verbatim>\<open>ToLower\<close> (as holds for all ASCII text),
  \<^verbatim>\<open>removeShiftString(applyShiftString(s)) == s\<close>.
\<close>

theorem shift_roundtrip:
  assumes "shift_in \<notin> set s" and "shift_out \<notin> set s"
    and "\<forall>c\<in>set s. IsUpper U c \<or> \<not> IsLower U c \<longrightarrow>
           ToUpper U (ToLower U c) = c \<and> ToLower U c \<noteq> shift_in \<and> ToLower U c \<noteq> shift_out"
  shows "removeShiftString U (applyShiftString U s) = s"
  using shift_loops_inverse [OF assms, of False]
  by (simp add: removeShiftString_def applyShiftString_def)

theorem shift_roundtrip_witness:
  "shift_in \<notin> set [65, 98, 67, 68, 32, 101] \<and> shift_out \<notin> set [65, 98, 67, 68, 32, 101]
   \<and> list_all (\<lambda>c. IsUpper go_unicode c \<or> \<not> IsLower go_unicode c \<longrightarrow>
           ToUpper go_unicode (ToLower go_unicode c) = c
           \<and> ToLower go_unicode c \<noteq> shift_in \<and> ToLower go_unicode c \<noteq> shift_out)
        [65, 98, 67, 68, 32, 101]
   \<and> applyShiftString go_unicode [65, 98, 67, 68, 32, 101]
       = [shift_in, 97, shift_out, 98, shift_in, 99, 100, 32, shift_out, 101]
   \<and> removeShiftString go_unicode (applyShiftString go_unicode [65, 98, 67, 68, 32, 101])
       = [65, 98, 67, 68, 32, 101]"
proof -
  have a: "shift_in \<notin> set [65, 98, 67, 68, 32, 101]" "shift_out \<notin> set [65, 98, 67, 68, 32, 101]"
    by (simp_all add: shift_in_def shift_out_def)
  have b: "\<forall>c\<in>set [65, 98, 67, 68, 32, 101]. IsUpper go_unicode c \<or> \<not> IsLower go_unicode c \<longrightarrow>
           ToUpper go_unicode (ToLower go_unicode c) = c
           \<and> ToLower go_unicode c \<noteq> shift_in \<and> ToLower go_unicode c \<noteq> shift_out"
    by (simp add: go_unicode_def shift_in_def shift_out_def)
  have c: "applyShiftString go_unicode [65, 98, 67, 68, 32, 101]
       = [shift_in, 97, shift_out, 98, shift_in, 99, 100, 32, shift_out, 101]"
    by (simp add: applyShiftString_def go_unicode_def)
  from shift_roundtrip [OF a b] a b c show ?thesis
    by (simp only: list_all_iff simp_thms)
qed

text \<open>
  Claim C10, as stated, says that the output of \<^verbatim>\<open>applyShiftString\<close> never contains an
  uppercase symbol. U+2102 DOUBLE-STRUCK CAPITAL C is uppercase and has no lowercase form,
  so \<^verbatim>\<open>ToLower\<close> leaves it unchanged: the string made of it alone is shifted to the marker
  followed by the same uppercase symbol.
\<close>

theorem applyShiftString_upper_counterexample:
  "applyShiftString go_unicode [8450] = [shift_in, 8450]
   \<and> 8450 \<in> set (applyShiftString go_unicode [8450])
   \<and> IsUpper go_unicode 8450"
  by (simp add: applyShiftString_def go_unicode_def)

text \<open>
  Claim C10, amended. For every input string in which \<^verbatim>\<open>ToLower\<close> maps every character
  to a character that is not uppercase (as holds for all ASCII text and for every letter
  that has a lowercase form), the output of \<^verbatim>\<open>applyShiftString\<close> contains no uppercase
  symbol; the markers are not uppercase and no character is both uppercase and lowercase.
\<close>

theorem applyShiftString_no_upper:
  assumes "\<not> IsUpper U shift_in" and "\<not> IsUpper U shift_out"
    and "\<forall>c\<in>set s. \<not> IsUpper U (ToLower U c) \<and> \<not> (IsUpper U c \<and> IsLower U c)"
  shows "\<forall>x\<in>set (applyShiftString U s). \<not> IsUpper U x"
  using applyShift_loop_no_upper [OF assms, of "[]" False]
  by (simp add: applyShiftString_def)

theorem applyShiftString_no_upper_witness:
  "\<not> IsUpper go_unicode shift_in \<and> \<not> IsUpper go_unicode shift_out
   \<and> list_all (\<lambda>c. \<not> IsUpper go_unicode (ToLower go_unicode c)
                 \<and> \<not> (IsUpper go_unicode c \<and> IsLower go_unicode c)) [65, 98, 67, 68, 32, 101]
   \<and> list_all (\<lambda>x. \<not> IsUpper go_unicode x) (applyShiftString go_unicode [65, 98, 67, 68, 32, 101])"
proof -
  have a: "\<not> IsUpper go_unicode shift_in" "\<not> IsUpper go_unicode shift_out"
    by (simp_all add: go_unicode_def shift_in_def shift_out_def)
  have b: "\<forall>c\<in>set [65, 98, 67, 68, 32, 101]. \<not> IsUpper go_unicode (ToLower go_unicode c)
                 \<and> \<not> (IsUpper go_unicode c \<and> IsLower go_unicode c)"
    by (simp add: go_unicode_def)
  from applyShiftString_no_upper [OF a b] a b show ?thesis
    by (simp only: list_all_iff simp_thms)
qed

end
